theory Spec2Isabelle
  imports Complex_Main
begin

section \<open>Data model (src/types/models.ts)\<close>

text \<open>
  TypeScript strings are modelled as \<^typ>\<open>string\<close>. A field of type
  \<^verbatim>\<open>string | null\<close> and the optional field \<^verbatim>\<open>notes?: string\<close> are
  \<^typ>\<open>string option\<close>, with \<^term>\<open>None\<close> for \<^verbatim>\<open>null\<close> and
  \<^verbatim>\<open>undefined\<close>. The field \<^verbatim>\<open>id\<close> is called \<open>p_id\<close> and
  \<open>d_id\<close>, since \<open>id\<close> is the identity function of HOL; the other fields carry the
  same prefixes, because both interfaces have a \<^verbatim>\<open>status\<close>; the fields of
  \<^verbatim>\<open>BoundingBox\<close> are prefixed \<open>bb_\<close>.
\<close>

datatype PackageStatus = Pending | Found | Verified | Not_found

datatype DetectionStatus = Matched | Duplicate | Orphan | Unreadable | Ambiguous

record BoundingBox =
  bb_x :: real
  bb_y :: real
  bb_width :: real
  bb_height :: real

record Package =
  p_id :: string
  p_apartment :: string
  p_trackingLast4 :: string
  p_carrier :: string
  p_recipient :: string
  p_fullTracking :: string
  p_importedAt :: int
  p_status :: PackageStatus

record Detection =
  d_id :: string
  d_photoId :: string
  d_boundingBox :: BoundingBox
  d_rawText :: string
  d_parsedApartment :: "string option"
  d_parsedLast4 :: "string option"
  d_parsedDate :: "string option"
  d_parsedInitials :: "string option"
  d_confidence :: real
  d_matchedPackageId :: "string option"
  d_status :: DetectionStatus
  d_notes :: "string option"

section \<open>The matching algorithm (src/utils/matchingAlgorithm.ts)\<close>

text \<open>
  JavaScript truthiness of a \<^verbatim>\<open>string | null\<close>: \<^verbatim>\<open>null\<close>,
  \<^verbatim>\<open>undefined\<close> and the empty string are falsy, every other string is truthy.
\<close>

fun truthy :: "string option \<Rightarrow> bool" where
  "truthy None = False"
| "truthy (Some s) = (s \<noteq> [])"

text \<open>The template literal \<^verbatim>\<open>`${apartment}:${trackingLast4}`\<close>.\<close>

definition comboKey :: "string \<Rightarrow> string \<Rightarrow> string" where
  "comboKey apartment last4 = apartment @ '':'' @ last4"

text \<open>
  Lines 32-36 (and 117-121): the claimed set is seeded with the key of every package
  whose status is \<^verbatim>\<open>found\<close> or \<^verbatim>\<open>verified\<close>.
\<close>

definition addFoundCombo :: "Package \<Rightarrow> string set \<Rightarrow> string set" where
  "addFoundCombo pkg matchedCombos =
     (if p_status pkg = Found \<or> p_status pkg = Verified
      then insert (comboKey (p_apartment pkg) (p_trackingLast4 pkg)) matchedCombos
      else matchedCombos)"

definition foundCombos :: "Package list \<Rightarrow> string set" where
  "foundCombos packages = fold addFoundCombo packages {}"

text \<open>The predicate of the \<^verbatim>\<open>filter\<close> of lines 57-62.\<close>

definition isMatchingPackage :: "string \<Rightarrow> string \<Rightarrow> Package \<Rightarrow> bool" where
  "isMatchingPackage parsedApartment parsedLast4 pkg \<longleftrightarrow>
     p_apartment pkg = parsedApartment \<and> p_trackingLast4 pkg = parsedLast4 \<and>
     p_status pkg = Pending"

text \<open>
  \<^verbatim>\<open>updatedPackages.filter(...)\<close> returns references to the elements that pass;
  in the list model a reference into \<^verbatim>\<open>updatedPackages\<close> is an index.
\<close>

definition matchingPackages :: "Package list \<Rightarrow> string \<Rightarrow> string \<Rightarrow> nat list" where
  "matchingPackages updatedPackages parsedApartment parsedLast4 =
     filter (\<lambda>i. isMatchingPackage parsedApartment parsedLast4 (updatedPackages ! i))
       [0..<length updatedPackages]"

text \<open>
  The notes of lines 83-85 and 91-93: the remark is appended after \<^verbatim>\<open>". "\<close> to
  truthy notes and stands alone otherwise.
\<close>

definition appendNote :: "string option \<Rightarrow> string \<Rightarrow> string option" where
  "appendNote notes remark =
     (case notes of
        None \<Rightarrow> Some remark
      | Some n \<Rightarrow> if n = [] then Some remark else Some (n @ ''. '' @ remark))"

text \<open>
  The body of \<^verbatim>\<open>updatedDetections.forEach\<close> (lines 39-94), as a function of the
  loop's state (the package copies and the claimed set) and the detection copy; it
  returns the three after the body has run.
\<close>

definition matchDetection ::
  "Package list \<Rightarrow> string set \<Rightarrow> Detection \<Rightarrow> Package list \<times> string set \<times> Detection" where
  "matchDetection updatedPackages matchedCombos detection =
     (if \<not> truthy (d_parsedApartment detection) \<or> \<not> truthy (d_parsedLast4 detection)
      then (updatedPackages, matchedCombos, detection\<lparr>d_status := Unreadable\<rparr>)
      else
        let parsedApartment = the (d_parsedApartment detection);
            parsedLast4 = the (d_parsedLast4 detection);
            key = comboKey parsedApartment parsedLast4
        in if key \<in> matchedCombos
           then (updatedPackages, matchedCombos, detection\<lparr>d_status := Duplicate\<rparr>)
           else
             (case matchingPackages updatedPackages parsedApartment parsedLast4 of
                [i] \<Rightarrow>
                  (updatedPackages[i := (updatedPackages ! i)\<lparr>p_status := Found\<rparr>],
                   insert key matchedCombos,
                   detection\<lparr>d_status := Matched,
                     d_matchedPackageId := Some (p_id (updatedPackages ! i))\<rparr>)
              | _ # _ # _ \<Rightarrow>
                  (updatedPackages, matchedCombos,
                   detection\<lparr>d_status := Ambiguous,
                     d_notes := appendNote (d_notes detection)
                       ''Multiple packages match this apartment and tracking number.''\<rparr>)
              | [] \<Rightarrow>
                  (updatedPackages, matchedCombos,
                   detection\<lparr>d_status := Orphan,
                     d_notes := appendNote (d_notes detection)
                       ''Sticker not found in imported package list.''\<rparr>)))"

text \<open>The loop over the detections, in input order.\<close>

fun matchLoop ::
  "Package list \<Rightarrow> string set \<Rightarrow> Detection list \<Rightarrow> Package list \<times> string set \<times> Detection list" where
  "matchLoop updatedPackages matchedCombos [] = (updatedPackages, matchedCombos, [])"
| "matchLoop updatedPackages matchedCombos (detection # rest) =
     (case matchDetection updatedPackages matchedCombos detection of
        (updatedPackages', matchedCombos', detection') \<Rightarrow>
          (case matchLoop updatedPackages' matchedCombos' rest of
             (updatedPackages'', matchedCombos'', rest') \<Rightarrow>
               (updatedPackages'', matchedCombos'', detection' # rest')))"

text \<open>
  \<^verbatim>\<open>matchDetections\<close> returns \<^verbatim>\<open>{ updatedPackages, updatedDetections }\<close>,
  here a pair. The copies of lines 24-25 are the values themselves in this value model;
  the store model of the next section makes them objects of their own.
\<close>

definition matchDetections :: "Package list \<Rightarrow> Detection list \<Rightarrow> Package list \<times> Detection list" where
  "matchDetections packages detections =
     (case matchLoop packages (foundCombos packages) detections of
        (updatedPackages, matchedCombos, updatedDetections) \<Rightarrow>
          (updatedPackages, updatedDetections))"

text \<open>
  Lines 123-129 of \<^verbatim>\<open>rematchSingleDetection\<close>: the combos of the other matched or
  duplicate detections.
\<close>

definition addOtherCombo :: "Detection \<Rightarrow> Detection \<Rightarrow> string set \<Rightarrow> string set" where
  "addOtherCombo detection det matchedCombos =
     (if d_id det \<noteq> d_id detection \<and> (d_status det = Matched \<or> d_status det = Duplicate)
      then (if truthy (d_parsedApartment det) \<and> truthy (d_parsedLast4 det)
            then insert (comboKey (the (d_parsedApartment det)) (the (d_parsedLast4 det)))
                   matchedCombos
            else matchedCombos)
      else matchedCombos)"

text \<open>
  \<^verbatim>\<open>rematchSingleDetection\<close> (lines 106-138). The set \<open>matchedCombos\<close> is built
  as the source builds it; the call of line 132 does not receive it.
\<close>

definition rematchSingleDetection ::
  "Package list \<Rightarrow> Detection \<Rightarrow> Detection list \<Rightarrow> Package list \<times> Detection" where
  "rematchSingleDetection packages detection allDetections =
     (let matchedCombos = fold (addOtherCombo detection) allDetections (foundCombos packages);
          result = matchDetections packages [detection]
      in (fst result, snd result ! 0))"

subsection \<open>Notions used to state the properties of the matching algorithm\<close>

text \<open>
  A detection's combo is claimed by the packages when both parsed fields are truthy and
  the key is the key of a \<^verbatim>\<open>found\<close> or \<^verbatim>\<open>verified\<close> package: the
  test of line 51 against the set seeded by lines 32-36.
\<close>

definition comboClaimed :: "Package list \<Rightarrow> Detection \<Rightarrow> bool" where
  "comboClaimed packages detection \<longleftrightarrow>
     truthy (d_parsedApartment detection) \<and> truthy (d_parsedLast4 detection) \<and>
     comboKey (the (d_parsedApartment detection)) (the (d_parsedLast4 detection))
       \<in> foundCombos packages"

text \<open>
  The status of a detection agrees with a state of the loop: what each of the five
  statuses says about the parsed fields, the claimed set and the pending packages.
\<close>

definition settled :: "Package list \<Rightarrow> string set \<Rightarrow> Detection \<Rightarrow> bool" where
  "settled pkgs mc d =
     (case d_status d of
        Unreadable \<Rightarrow> \<not> truthy (d_parsedApartment d) \<or> \<not> truthy (d_parsedLast4 d)
      | Duplicate \<Rightarrow>
          truthy (d_parsedApartment d) \<and> truthy (d_parsedLast4 d) \<and>
          comboKey (the (d_parsedApartment d)) (the (d_parsedLast4 d)) \<in> mc
      | Matched \<Rightarrow>
          truthy (d_parsedApartment d) \<and> truthy (d_parsedLast4 d) \<and>
          comboKey (the (d_parsedApartment d)) (the (d_parsedLast4 d)) \<in> mc
      | Orphan \<Rightarrow>
          truthy (d_parsedApartment d) \<and> truthy (d_parsedLast4 d) \<and>
          matchingPackages pkgs (the (d_parsedApartment d)) (the (d_parsedLast4 d)) = []
      | Ambiguous \<Rightarrow>
          truthy (d_parsedApartment d) \<and> truthy (d_parsedLast4 d) \<and>
          2 \<le> length (matchingPackages pkgs (the (d_parsedApartment d)) (the (d_parsedLast4 d))))"

subsection \<open>The helpers of the test suite (matchingAlgorithm.test.ts)\<close>

text \<open>
  \<^verbatim>\<open>createPackage\<close> and \<^verbatim>\<open>createDetection\<close> build the records of the
  repository's tests; they build the concrete inputs below. \<^verbatim>\<open>Date.now()\<close> is the
  argument \<open>now\<close>. A template literal renders \<^verbatim>\<open>null\<close> as the text
  \<^verbatim>\<open>null\<close>, and \<^verbatim>\<open>a || 'unknown'\<close> replaces a falsy value.
\<close>

definition createPackage :: "int \<Rightarrow> string \<Rightarrow> string \<Rightarrow> PackageStatus \<Rightarrow> Package" where
  "createPackage now apartment last4 status =
     \<lparr>p_id = ''pkg-'' @ apartment @ ''-'' @ last4,
      p_apartment = apartment,
      p_trackingLast4 = last4,
      p_carrier = ''TEST'',
      p_recipient = ''Test User'',
      p_fullTracking = ''TRACK'' @ last4,
      p_importedAt = now,
      p_status = status\<rparr>"

fun template :: "string option \<Rightarrow> string" where
  "template None = ''null''"
| "template (Some s) = s"

definition orUnknown :: "string option \<Rightarrow> string" where
  "orUnknown v = (if truthy v then the v else ''unknown'')"

definition createDetection :: "string option \<Rightarrow> string option \<Rightarrow> string \<Rightarrow> Detection" where
  "createDetection apartment last4 photoId =
     \<lparr>d_id = ''det-'' @ template apartment @ ''-'' @ template last4,
      d_photoId = photoId,
      d_boundingBox = \<lparr>bb_x = 0, bb_y = 0, bb_width = 10, bb_height = 10\<rparr>,
      d_rawText = orUnknown apartment @ [CHR 0x0A] @ orUnknown last4,
      d_parsedApartment = apartment,
      d_parsedLast4 = last4,
      d_parsedDate = None,
      d_parsedInitials = None,
      d_confidence = 95 / 100,
      d_matchedPackageId = None,
      d_status = Matched,
      d_notes = None\<rparr>"

section \<open>The matching algorithm on a store of objects\<close>

text \<open>
  \<^verbatim>\<open>matchDetections\<close> receives arrays of references to objects of the caller, copies
  every object (lines 24-25) and assigns to fields of the copies (lines 44, 52, 69, 72,
  73, 82, 83, 90, 91). To state what the function does to the objects of the caller, this
  section models the objects in a store: a reference is an index into the list of the
  objects of its type, and an object literal allocates the next index. The arguments
  are lists of references; \<^verbatim>\<open>map\<close>, \<^verbatim>\<open>forEach\<close> and \<^verbatim>\<open>filter\<close>, the only
  array operations of the function, do not write to the array they are called on.
  The bounding box stays a value inside its detection: no line of the function assigns to
  a field of a bounding box.
\<close>

record store =
  packageObjects :: "Package list"
  detectionObjects :: "Detection list"

definition newPackage :: "store \<Rightarrow> Package \<Rightarrow> store \<times> nat" where
  "newPackage s obj =
     (s\<lparr>packageObjects := packageObjects s @ [obj]\<rparr>, length (packageObjects s))"

definition newDetection :: "store \<Rightarrow> Detection \<Rightarrow> store \<times> nat" where
  "newDetection s obj =
     (s\<lparr>detectionObjects := detectionObjects s @ [obj]\<rparr>, length (detectionObjects s))"

text \<open>Line 24: \<^verbatim>\<open>packages.map(pkg => ({ ...pkg }))\<close>.\<close>

fun copyPackages :: "store \<Rightarrow> nat list \<Rightarrow> store \<times> nat list" where
  "copyPackages s [] = (s, [])"
| "copyPackages s (pkg # rest) =
     (case newPackage s (packageObjects s ! pkg) of
        (s1, copy) \<Rightarrow>
          (case copyPackages s1 rest of (s2, copies) \<Rightarrow> (s2, copy # copies)))"

text \<open>
  Line 25: \<^verbatim>\<open>detections.map(det => ({ ...det, boundingBox: { ...det.boundingBox } }))\<close>.
\<close>

fun copyDetections :: "store \<Rightarrow> nat list \<Rightarrow> store \<times> nat list" where
  "copyDetections s [] = (s, [])"
| "copyDetections s (det # rest) =
     (case newDetection s
             ((detectionObjects s ! det)
                \<lparr>d_boundingBox := d_boundingBox (detectionObjects s ! det)\<rparr>) of
        (s1, copy) \<Rightarrow>
          (case copyDetections s1 rest of (s2, copies) \<Rightarrow> (s2, copy # copies)))"

text \<open>Assignments to the fields of an object of the store.\<close>

definition setPackageStatus :: "store \<Rightarrow> nat \<Rightarrow> PackageStatus \<Rightarrow> store" where
  "setPackageStatus s pkg status =
     s\<lparr>packageObjects := (packageObjects s)[pkg := (packageObjects s ! pkg)\<lparr>p_status := status\<rparr>]\<rparr>"

definition setDetectionStatus :: "store \<Rightarrow> nat \<Rightarrow> DetectionStatus \<Rightarrow> store" where
  "setDetectionStatus s det status =
     s\<lparr>detectionObjects :=
         (detectionObjects s)[det := (detectionObjects s ! det)\<lparr>d_status := status\<rparr>]\<rparr>"

definition setMatchedPackageId :: "store \<Rightarrow> nat \<Rightarrow> string option \<Rightarrow> store" where
  "setMatchedPackageId s det v =
     s\<lparr>detectionObjects :=
         (detectionObjects s)[det := (detectionObjects s ! det)\<lparr>d_matchedPackageId := v\<rparr>]\<rparr>"

definition setNotes :: "store \<Rightarrow> nat \<Rightarrow> string option \<Rightarrow> store" where
  "setNotes s det v =
     s\<lparr>detectionObjects :=
         (detectionObjects s)[det := (detectionObjects s ! det)\<lparr>d_notes := v\<rparr>]\<rparr>"

text \<open>The body of the loop (lines 39-94) on the store.\<close>

definition matchDetectionStore ::
  "store \<Rightarrow> nat list \<Rightarrow> string set \<Rightarrow> nat \<Rightarrow> store \<times> string set" where
  "matchDetectionStore s updatedPackages matchedCombos detection =
     (let parsedApartment = d_parsedApartment (detectionObjects s ! detection);
          parsedLast4 = d_parsedLast4 (detectionObjects s ! detection)
      in if \<not> truthy parsedApartment \<or> \<not> truthy parsedLast4
         then (setDetectionStatus s detection Unreadable, matchedCombos)
         else
           let key = comboKey (the parsedApartment) (the parsedLast4)
           in if key \<in> matchedCombos
              then (setDetectionStatus s detection Duplicate, matchedCombos)
              else
                (case filter (\<lambda>pkg. isMatchingPackage (the parsedApartment) (the parsedLast4)
                                 (packageObjects s ! pkg)) updatedPackages of
                   [pkg] \<Rightarrow>
                     (let s1 = setPackageStatus s pkg Found;
                          s2 = setDetectionStatus s1 detection Matched;
                          s3 = setMatchedPackageId s2 detection
                                 (Some (p_id (packageObjects s2 ! pkg)))
                      in (s3, insert key matchedCombos))
                 | _ # _ # _ \<Rightarrow>
                     (let s1 = setDetectionStatus s detection Ambiguous;
                          s2 = setNotes s1 detection
                                 (appendNote (d_notes (detectionObjects s1 ! detection))
                                    ''Multiple packages match this apartment and tracking number.'')
                      in (s2, matchedCombos))
                 | [] \<Rightarrow>
                     (let s1 = setDetectionStatus s detection Orphan;
                          s2 = setNotes s1 detection
                                 (appendNote (d_notes (detectionObjects s1 ! detection))
                                    ''Sticker not found in imported package list.'')
                      in (s2, matchedCombos))))"

fun matchLoopStore :: "store \<Rightarrow> nat list \<Rightarrow> string set \<Rightarrow> nat list \<Rightarrow> store \<times> string set" where
  "matchLoopStore s updatedPackages matchedCombos [] = (s, matchedCombos)"
| "matchLoopStore s updatedPackages matchedCombos (detection # rest) =
     (case matchDetectionStore s updatedPackages matchedCombos detection of
        (s', matchedCombos') \<Rightarrow> matchLoopStore s' updatedPackages matchedCombos' rest)"

text \<open>
  \<^verbatim>\<open>matchDetections\<close> on the store: it returns the store after the call and the two
  arrays of references it returns to the caller.
\<close>

definition matchDetectionsStore :: "store \<Rightarrow> nat list \<Rightarrow> nat list \<Rightarrow> store \<times> nat list \<times> nat list" where
  "matchDetectionsStore s packages detections =
     (case copyPackages s packages of
        (s1, updatedPackages) \<Rightarrow>
          (case copyDetections s1 detections of
             (s2, updatedDetections) \<Rightarrow>
               (let matchedCombos =
                      fold (\<lambda>pkg. addFoundCombo (packageObjects s2 ! pkg)) updatedPackages {}
                in case matchLoopStore s2 updatedPackages matchedCombos updatedDetections of
                     (s3, matchedCombos') \<Rightarrow> (s3, updatedPackages, updatedDetections))))"

section \<open>JavaScript strings and regular expressions\<close>

text \<open>
  The parser works on strings with the methods of \<^verbatim>\<open>String.prototype\<close> and with
  regular expression literals. This section models the ones it calls. A string is a
  \<^typ>\<open>string\<close>: the model covers the texts whose UTF-16 code units are below 256, one
  \<^typ>\<open>char\<close> per code unit.
\<close>

subsection \<open>Character classes\<close>

text \<open>
  \<^verbatim>\<open>\s\<close> and \<^verbatim>\<open>trim\<close> use the same set, white space and line terminators:
  below 256 these are tab, line feed, vertical tab, form feed, carriage return, space
  and the no-break space. The dot of a regular expression without the \<^verbatim>\<open>s\<close>
  flag excludes the line terminators.
\<close>

definition isSpace :: "char \<Rightarrow> bool" where
  "isSpace c \<longleftrightarrow>
     c = CHR 0x09 \<or> c = CHR 0x0A \<or> c = CHR 0x0B \<or> c = CHR 0x0C \<or> c = CHR 0x0D \<or>
     c = CHR 0x20 \<or> c = CHR 0xA0"

definition isLineTerminator :: "char \<Rightarrow> bool" where
  "isLineTerminator c \<longleftrightarrow> c = CHR 0x0A \<or> c = CHR 0x0D"

definition isDigit :: "char \<Rightarrow> bool" where
  "isDigit c \<longleftrightarrow> (48::nat) \<le> of_char c \<and> of_char c \<le> (57::nat)"

definition isUpper :: "char \<Rightarrow> bool" where
  "isUpper c \<longleftrightarrow> (65::nat) \<le> of_char c \<and> of_char c \<le> (90::nat)"

definition isLower :: "char \<Rightarrow> bool" where
  "isLower c \<longleftrightarrow> (97::nat) \<le> of_char c \<and> of_char c \<le> (122::nat)"

text \<open>
  \<^verbatim>\<open>[A-Z]\<close> under the \<^verbatim>\<open>i\<close> flag (without the \<^verbatim>\<open>u\<close> flag) matches the
  ASCII letters of both cases and nothing else: canonicalisation never maps a code unit
  above 127 to one below 128.
\<close>

definition isLetter :: "char \<Rightarrow> bool" where
  "isLetter c \<longleftrightarrow> isUpper c \<or> isLower c"

text \<open>
  \<^verbatim>\<open>toUpperCase\<close>, on the ASCII letters; the parser applies it to a match of
  \<^verbatim>\<open>[A-Z]\d{2}[A-Z]\<close> only, which consists of ASCII letters and digits.
\<close>

definition toUpperChar :: "char \<Rightarrow> char" where
  "toUpperChar c = (if isLower c then char_of (of_char c - (32::nat)) else c)"

definition toUpperCase :: "string \<Rightarrow> string" where
  "toUpperCase s = map toUpperChar s"

subsection \<open>Methods of strings\<close>

definition trim :: "string \<Rightarrow> string" where
  "trim s = rev (dropWhile isSpace (rev (dropWhile isSpace s)))"

text \<open>
  \<^verbatim>\<open>s.split(sep)\<close> for a non-empty string \<open>sep\<close>: the occurrences of \<open>sep\<close> are
  found from left to right and do not overlap. \<open>acc\<close> holds the current piece, reversed.
\<close>

function splitLoop :: "string \<Rightarrow> string \<Rightarrow> string \<Rightarrow> string list" where
  "splitLoop sep acc s =
     (if s = [] then [rev acc]
      else if sep \<noteq> [] \<and> take (length sep) s = sep
           then rev acc # splitLoop sep [] (drop (length sep) s)
           else splitLoop sep (hd s # acc) (tl s))"
  by pat_completeness auto
termination
  by (relation "measure (\<lambda>(sep, acc, s). length s)") auto

definition split :: "string \<Rightarrow> string \<Rightarrow> string list" where
  "split sep s = splitLoop sep [] s"

text \<open>\<^verbatim>\<open>s.indexOf(c)\<close> for a single character; \<^term>\<open>None\<close> is \<^verbatim>\<open>-1\<close>.\<close>

fun indexOf :: "char \<Rightarrow> string \<Rightarrow> nat option" where
  "indexOf c [] = None"
| "indexOf c (d # s) = (if d = c then Some 0 else map_option Suc (indexOf c s))"

text \<open>\<^verbatim>\<open>tokens.join(' ')\<close>\<close>

fun join :: "string \<Rightarrow> string list \<Rightarrow> string" where
  "join sep [] = []"
| "join sep [t] = t"
| "join sep (t # u # ts) = t @ sep @ join sep (u # ts)"

text \<open>\<^verbatim>\<open>s.slice(-4)\<close>: the last four characters, or all of a shorter string.\<close>

definition sliceLast4 :: "string \<Rightarrow> string" where
  "sliceLast4 s = drop (length s - 4) s"

text \<open>A number in a template literal: its decimal digits.\<close>

fun showNat :: "nat \<Rightarrow> string" where
  "showNat n =
     (if n < 10 then [char_of (48 + n)]
      else showNat (n div 10) @ [char_of (48 + n mod 10)])"

subsection \<open>Regular expressions\<close>

text \<open>
  The regular expression literals of the parser use character classes, greedy
  repetition of a character class, sequence, alternation, the greedy option, capturing
  groups and the anchor \<^verbatim>\<open>^\<close>. \<open>Rep p k\<close> is the class \<open>p\<close> at least \<open>k\<close> times
  (\<^verbatim>\<open>+\<close> is \<open>Rep p 1\<close>, \<^verbatim>\<open>*\<close> is \<open>Rep p 0\<close>, \<^verbatim>\<open>{2,}\<close> is \<open>Rep p 2\<close>);
  \<open>Eol\<close> is \<^verbatim>\<open>$\<close>, which only the pattern of the specification uses.
\<close>

datatype regex =
    Chr "char \<Rightarrow> bool"
  | Rep "char \<Rightarrow> bool" nat
  | Seq regex regex
  | Alt regex regex
  | Opt regex
  | Grp nat regex
  | Eps
  | Bol
  | Eol

text \<open>
  The matcher is the backtracking matcher of ECMAScript as a list of successes: the
  results of matching at the start of \<open>s\<close>, each the rest of the input with the captures
  made, in the order in which backtracking tries them (a greedy repetition the longest
  first, an alternation its left side first, an option its body first). The first
  element of the list is the match that \<^verbatim>\<open>exec\<close> reports. \<open>n\<close> is the length of the
  whole input, which tells \<^verbatim>\<open>^\<close> whether \<open>s\<close> is all of it.
\<close>

type_synonym captures = "(nat \<times> string) list"

fun rmatch :: "nat \<Rightarrow> regex \<Rightarrow> string \<times> captures \<Rightarrow> (string \<times> captures) list" where
  "rmatch n (Chr p) (s, cs) =
     (case s of [] \<Rightarrow> [] | c # t \<Rightarrow> if p c then [(t, cs)] else [])"
| "rmatch n (Rep p k) (s, cs) =
     map (\<lambda>j. (drop j s, cs)) (rev [k..<Suc (length (takeWhile p s))])"
| "rmatch n (Seq a b) st = concat (map (rmatch n b) (rmatch n a st))"
| "rmatch n (Alt a b) st = rmatch n a st @ rmatch n b st"
| "rmatch n (Opt a) st = rmatch n a st @ [st]"
| "rmatch n (Grp g a) (s, cs) =
     map (\<lambda>(s', cs'). (s', (g, take (length s - length s') s) # cs')) (rmatch n a (s, cs))"
| "rmatch n Eps st = [st]"
| "rmatch n Bol (s, cs) = (if length s = n then [(s, cs)] else [])"
| "rmatch n Eol (s, cs) = (if s = [] then [(s, cs)] else [])"

text \<open>
  The result of \<^verbatim>\<open>s.match(re)\<close> for a regular expression without the \<^verbatim>\<open>g\<close>
  flag: the index of the match, the matched text (element 0) and the captures. The
  search tries the start positions from left to right, the end of the input included.
\<close>

record rmatched =
  m_index :: nat
  m_text :: string
  m_captures :: captures

fun matchFrom :: "nat \<Rightarrow> regex \<Rightarrow> nat \<Rightarrow> string \<Rightarrow> rmatched option" where
  "matchFrom n re i s =
     (case rmatch n re (s, []) of
        (s', cs) # _ \<Rightarrow>
          Some \<lparr>m_index = i, m_text = take (length s - length s') s, m_captures = cs\<rparr>
      | [] \<Rightarrow> (case s of [] \<Rightarrow> None | _ # t \<Rightarrow> matchFrom n re (Suc i) t))"

definition match :: "regex \<Rightarrow> string \<Rightarrow> rmatched option" where
  "match re s = matchFrom (length s) re 0 s"

text \<open>\<^verbatim>\<open>re.test(s)\<close>\<close>

definition test :: "regex \<Rightarrow> string \<Rightarrow> bool" where
  "test re s \<longleftrightarrow> match re s \<noteq> None"

text \<open>
  Element \<open>g\<close> of a match. Every group the parser reads stands outside any option or
  alternation, so it has captured whenever its pattern matched; \<^term>\<open>[]\<close> stands for a
  group that has not.
\<close>

definition group :: "rmatched \<Rightarrow> nat \<Rightarrow> string" where
  "group m g = (case map_of (m_captures m) g of Some t \<Rightarrow> t | None \<Rightarrow> [])"

text \<open>
  \<^verbatim>\<open>s.replace(re, '')\<close> for a regular expression without the \<^verbatim>\<open>g\<close> flag: the
  first match is removed.
\<close>

definition removeFirst :: "regex \<Rightarrow> string \<Rightarrow> string" where
  "removeFirst re s =
     (case match re s of
        None \<Rightarrow> s
      | Some m \<Rightarrow> take (m_index m) s @ drop (m_index m + length (m_text m)) s)"

text \<open>
  \<^verbatim>\<open>s.split(re)\<close> for a regular expression without groups: at each position \<open>q\<close> the
  pattern is tried at \<open>q\<close> only; a match that ends where the current piece starts is
  skipped, any other match closes the piece and the next one starts at its end. The
  empty string splits into no piece when the pattern matches it and into one empty
  piece otherwise.
\<close>

function regexSplitLoop :: "nat \<Rightarrow> regex \<Rightarrow> string \<Rightarrow> string \<Rightarrow> string list" where
  "regexSplitLoop n re acc s =
     (if s = [] then [rev acc]
      else
        (case rmatch n re (s, []) of
           [] \<Rightarrow> regexSplitLoop n re (hd s # acc) (tl s)
         | (s', cs) # _ \<Rightarrow>
             if length s' < length s then rev acc # regexSplitLoop n re [] s'
             else if acc = [] then regexSplitLoop n re [hd s] (tl s)
             else rev acc # regexSplitLoop n re [hd s] (tl s)))"
  by pat_completeness auto
termination
  by (relation "measure (\<lambda>(n, re, acc, s). length s)") auto

definition regexSplit :: "regex \<Rightarrow> string \<Rightarrow> string list" where
  "regexSplit re s =
     (if s = [] then (if rmatch 0 re ([], []) = [] then [[]] else [])
      else regexSplitLoop (length s) re [] s)"

text \<open>
  A literal text under the \<^verbatim>\<open>i\<close> flag, and the sequence of several patterns.
\<close>

definition chr :: "char \<Rightarrow> regex" where
  "chr c = Chr (\<lambda>d. d = c)"

definition chrI :: "char \<Rightarrow> regex" where
  "chrI c = Chr (\<lambda>d. toUpperChar d = toUpperChar c)"

fun seq :: "regex list \<Rightarrow> regex" where
  "seq [] = Eps"
| "seq [r] = r"
| "seq (r # rs) = Seq r (seq rs)"

definition litI :: "string \<Rightarrow> regex" where
  "litI t = seq (map chrI t)"

section \<open>The manifest parser (parsePackageList.ts)\<close>

text \<open>
  The model follows the revision of \<^verbatim>\<open>parsePackageList\<close> that has the anchor
  pattern, the no-tracking phrases and the case-insensitive apartment pattern (the one
  the test suite \<^verbatim>\<open>parsePackageList.test.ts\<close> exercises); line numbers in the
  comments refer to it.
\<close>

record ParsingError =
  e_lineNumber :: nat
  e_line :: string
  e_reason :: string

subsection \<open>The regular expression literals\<close>

text \<open>Line 24: \<^verbatim>\<open>/^([A-Z]\d{2}[A-Z])/i\<close>\<close>

definition apartmentRegex :: regex where
  "apartmentRegex = seq [Bol, Grp 1 (seq [Chr isLetter, Chr isDigit, Chr isDigit, Chr isLetter])]"

text \<open>Line 42: \<^verbatim>\<open>/\s+-\s+(#\d+)/\<close>\<close>

definition carrierRefPattern :: regex where
  "carrierRefPattern =
     seq [Rep isSpace 1, chr (CHR ''-''), Rep isSpace 1,
          Grp 1 (seq [chr (CHR ''#''), Rep isDigit 1])]"

text \<open>Line 73: \<^verbatim>\<open>/^Unit\s+/i\<close>\<close>

definition unitPrefix :: regex where
  "unitPrefix = seq [Bol, litI ''Unit'', Rep isSpace 1]"

text \<open>Line 151: \<^verbatim>\<open>/^(NO\s+TRACKING|NO\s+TRK|NO\s+TRACKING\s+NUMBER)/i\<close>\<close>

definition noTrackingPatterns :: regex where
  "noTrackingPatterns =
     seq [Bol,
          Grp 1 (Alt (seq [litI ''NO'', Rep isSpace 1, litI ''TRACKING''])
                  (Alt (seq [litI ''NO'', Rep isSpace 1, litI ''TRK''])
                       (seq [litI ''NO'', Rep isSpace 1, litI ''TRACKING'', Rep isSpace 1,
                             litI ''NUMBER''])))]"

text \<open>
  Line 159: \<^verbatim>\<open>/^(NO\s+(?:TRACKING|TRK)(?:\s+NUMBER)?)\s+[-\s]*(.+)/i\<close>
\<close>

definition noTrackRecipient :: regex where
  "noTrackRecipient =
     seq [Bol,
          Grp 1 (seq [litI ''NO'', Rep isSpace 1, Alt (litI ''TRACKING'') (litI ''TRK''),
                      Opt (seq [Rep isSpace 1, litI ''NUMBER''])]),
          Rep isSpace 1,
          Rep (\<lambda>c. c = CHR ''-'' \<or> isSpace c) 0,
          Grp 2 (Rep (\<lambda>c. \<not> isLineTerminator c) 1)]"

subsection \<open>One line\<close>

text \<open>
  What the \<^verbatim>\<open>try\<close> block extracts from a line before it looks at the lines seen
  so far.
\<close>

record extracted =
  x_apartment :: string
  x_carrier :: string
  x_recipient :: string
  x_fullTracking :: string
  x_trackingLast4 :: string

text \<open>
  Lines 133-195: the carrier/tracking field. The result is the reason of the error the
  block pushes, or the fields of the package.
\<close>

definition parseCarrierTracking :: "string \<Rightarrow> string \<Rightarrow> string + extracted" where
  "parseCarrierTracking apartment carrierTrackingField =
     (let parts = split '' - '' carrierTrackingField
      in if length parts < 3
         then Inl (''Invalid carrier/tracking format in '' @ [CHR 0x22] @ carrierTrackingField @
                   [CHR 0x22] @ '' - expected '' @ [CHR 0x22] @
                   ''CARRIER - #REF - TRACKING RECIPIENT'' @ [CHR 0x22] @ '' (found '' @
                   showNat (length parts) @ '' parts, need 3)'')
         else
           let carrier = trim (parts ! 0);
               trackingAndRecipient = trim (parts ! 2)
           in if test noTrackingPatterns trackingAndRecipient
              then
                (let noTrackMatch = match noTrackRecipient trackingAndRecipient
                 in if noTrackMatch \<noteq> None \<and> trim (group (the noTrackMatch) 2) \<noteq> []
                    then Inr \<lparr>x_apartment = apartment, x_carrier = carrier,
                               x_recipient = trim (group (the noTrackMatch) 2),
                               x_fullTracking = trim (group (the noTrackMatch) 1),
                               x_trackingLast4 = ''NONE''\<rparr>
                    else Inr \<lparr>x_apartment = apartment, x_carrier = carrier,
                               x_recipient = ''UNKNOWN'',
                               x_fullTracking = trim trackingAndRecipient,
                               x_trackingLast4 = ''NONE''\<rparr>)
              else
                (let tokens = regexSplit (Rep isSpace 1) trackingAndRecipient
                 in if length tokens < 2
                    then Inl ''Could not separate tracking number from recipient name''
                    else
                      let fullTracking = tokens ! 0;
                          recipient = join '' '' (tl tokens)
                      in if length fullTracking < 4
                         then Inl ''Tracking number too short (need at least 4 characters)''
                         else Inr \<lparr>x_apartment = apartment, x_carrier = carrier,
                                    x_recipient = recipient,
                                    x_fullTracking = fullTracking,
                                    x_trackingLast4 = sliceLast4 fullTracking\<rparr>))"

text \<open>
  Lines 36-131 compute \<^verbatim>\<open>apartment\<close> and \<^verbatim>\<open>carrierTrackingField\<close>, or
  push an error and return. The result is the reason of that error, or the two values.
\<close>

text \<open>Lines 45-98: the line is cut at the anchor \<^verbatim>\<open>" - #<digits>"\<close>.\<close>

definition parseAnchored :: "string \<Rightarrow> nat \<Rightarrow> string + string \<times> string" where
  "parseAnchored trimmedLine index =
     (let beforeCarrierRef = take index trimmedLine;
          fromCarrierRef = trim (drop index trimmedLine)
      in case match apartmentRegex beforeCarrierRef of
           None \<Rightarrow>
             Inl ''No valid apartment code found at start of line (expected format: C##L, N##L, etc.)''
         | Some apartmentMatch \<Rightarrow>
             let apartment = toUpperCase (group apartmentMatch 1);
                 afterApartment = trim (drop (length (m_text apartmentMatch)) beforeCarrierRef);
                 withoutUnit = removeFirst unitPrefix afterApartment;
                 words = regexSplit (Rep isSpace 1) (trim withoutUnit)
             in if length words < 2
                then Inl ''Could not identify carrier name''
                else
                  let carrier = words ! (length words - 1);
                      carrierTrackingPart =
                        (case indexOf (CHR 0x09) fromCarrierRef of
                           Some tabIndex \<Rightarrow> trim (take tabIndex fromCarrierRef)
                         | None \<Rightarrow> fromCarrierRef)
                  in Inr (apartment, carrier @ '' '' @ carrierTrackingPart))"

text \<open>Lines 101-131: the line is split at tabs, or at runs of two or more spaces.\<close>

definition splitFields :: "string \<Rightarrow> string list" where
  "splitFields trimmedLine =
     (if CHR 0x09 \<in> set trimmedLine
      then map trim (split [CHR 0x09] trimmedLine)
      else map trim (regexSplit (Rep isSpace 2) trimmedLine))"

definition insufficientFields :: "nat \<Rightarrow> string" where
  "insufficientFields found =
     ''Insufficient fields - found '' @ showNat found @
     '', expected at least 3 (apartment, entity, carrier/tracking)''"

definition parseFields :: "string \<Rightarrow> string + string \<times> string" where
  "parseFields trimmedLine =
     (let fields = splitFields trimmedLine
      in if length fields < 3
         then Inl (insufficientFields (length fields))
         else
           (case match apartmentRegex (fields ! 0) of
              None \<Rightarrow>
                Inl (''No valid apartment code found in '' @ [CHR 0x22] @ fields ! 0 @
                     [CHR 0x22] @
                     '' (expected format: C##L, N##L, etc. - any letter + 2 digits + letter)'')
            | Some apartmentMatch \<Rightarrow>
                Inr (toUpperCase (group apartmentMatch 1), fields ! 2)))"

text \<open>Lines 39-131: the anchor is looked for first, in every line.\<close>

definition segmentLine :: "string \<Rightarrow> string + string \<times> string" where
  "segmentLine trimmedLine =
     (case match carrierRefPattern trimmedLine of
        Some carrierRefMatch \<Rightarrow> parseAnchored trimmedLine (m_index carrierRefMatch)
      | None \<Rightarrow> parseFields trimmedLine)"

text \<open>Lines 36-195.\<close>

definition parseLine :: "string \<Rightarrow> string + extracted" where
  "parseLine trimmedLine =
     (case segmentLine trimmedLine of
        Inl reason \<Rightarrow> Inl reason
      | Inr (apartment, carrierTrackingField) \<Rightarrow>
          parseCarrierTracking apartment carrierTrackingField)"

subsection \<open>All lines\<close>

text \<open>
  The state of \<^verbatim>\<open>lines.forEach\<close>: the two arrays and the set \<^verbatim>\<open>seenCombos\<close>.
\<close>

record parseState =
  ps_packages :: "Package list"
  ps_errors :: "ParsingError list"
  ps_seenCombos :: "string set"

text \<open>
  The callback of \<^verbatim>\<open>forEach\<close> (lines 26-230) in the runs in which every call of
  \<^verbatim>\<open>uuidv4()\<close> and \<^verbatim>\<open>Date.now()\<close> returns. The two are the arguments
  \<open>uuidv4\<close> and \<open>now\<close>, functions of the number of packages made so far. No string
  operation of the \<^verbatim>\<open>try\<close> block throws, so in these runs the \<^verbatim>\<open>catch\<close>
  clause of lines 223-229 is not entered; \<open>parseCallbackCatch\<close> below is the callback
  with the two calls free to throw.
\<close>

definition parseCallback ::
  "(nat \<Rightarrow> string) \<Rightarrow> (nat \<Rightarrow> int) \<Rightarrow> parseState \<Rightarrow> string \<times> nat \<Rightarrow> parseState" where
  "parseCallback uuidv4 now st lineAndIndex =
     (let line = fst lineAndIndex;
          index = snd lineAndIndex;
          lineNumber = index + 1;
          trimmedLine = trim line
      in if trimmedLine = [] then st
         else
           (case parseLine trimmedLine of
              Inl reason \<Rightarrow>
                st\<lparr>ps_errors := ps_errors st @
                     [\<lparr>e_lineNumber = lineNumber, e_line = trimmedLine, e_reason = reason\<rparr>]\<rparr>
            | Inr x \<Rightarrow>
                let key = comboKey (x_apartment x) (x_trackingLast4 x)
                in if key \<in> ps_seenCombos st
                   then st\<lparr>ps_errors := ps_errors st @
                          [\<lparr>e_lineNumber = lineNumber, e_line = trimmedLine,
                            e_reason = ''Duplicate entry ('' @ x_apartment x @ '' + '' @
                              x_trackingLast4 x @ '' already exists)''\<rparr>]\<rparr>
                   else st\<lparr>ps_seenCombos := insert key (ps_seenCombos st),
                          ps_packages := ps_packages st @
                            [\<lparr>p_id = uuidv4 (length (ps_packages st)),
                              p_apartment = x_apartment x,
                              p_trackingLast4 = x_trackingLast4 x,
                              p_carrier = x_carrier x,
                              p_recipient = x_recipient x,
                              p_fullTracking = x_fullTracking x,
                              p_importedAt = now (length (ps_packages st)),
                              p_status = Pending\<rparr>]\<rparr>))"

text \<open>
  \<^verbatim>\<open>parsePackageList\<close>; the result \<^verbatim>\<open>{ packages, errors }\<close> is a pair.
\<close>

definition parseLines ::
  "(nat \<Rightarrow> string) \<Rightarrow> (nat \<Rightarrow> int) \<Rightarrow> string list \<Rightarrow> parseState" where
  "parseLines uuidv4 now lines =
     foldl (parseCallback uuidv4 now)
       \<lparr>ps_packages = [], ps_errors = [], ps_seenCombos = {}\<rparr>
       (zip lines [0..<length lines])"

definition parsePackageList ::
  "(nat \<Rightarrow> string) \<Rightarrow> (nat \<Rightarrow> int) \<Rightarrow> string \<Rightarrow> Package list \<times> ParsingError list" where
  "parsePackageList uuidv4 now rawText =
     (let st = parseLines uuidv4 now (split [CHR 0x0A] rawText)
      in (ps_packages st, ps_errors st))"

subsection \<open>The catch clause\<close>

text \<open>
  What a call of \<^verbatim>\<open>uuidv4()\<close> or \<^verbatim>\<open>Date.now()\<close> throws: an
  \<^verbatim>\<open>Error\<close> with its message, or any other value. Line 227 makes the reason of
  the error from it.
\<close>

datatype thrown = ErrorObject string | OtherValue

fun catchReason :: "thrown \<Rightarrow> string" where
  "catchReason (ErrorObject message) = ''Parsing error: '' @ message"
| "catchReason OtherValue = ''Parsing error: Unknown error''"

text \<open>
  The callback of \<^verbatim>\<open>forEach\<close> with the \<^verbatim>\<open>catch\<close> clause. A line calls
  \<^verbatim>\<open>uuidv4()\<close> and \<^verbatim>\<open>Date.now()\<close> at most once each, so the arguments
  \<open>uuidv4\<close> and \<open>now\<close> give, for the index of a line, what the call made for that line
  does: it throws (\<^term>\<open>Inl\<close>) or returns (\<^term>\<open>Inr\<close>). The object literal of lines
  210-219 evaluates \<^verbatim>\<open>uuidv4()\<close> first and \<^verbatim>\<open>Date.now()\<close> last, after
  line 207 has added the key to \<^verbatim>\<open>seenCombos\<close>; the \<^verbatim>\<open>catch\<close> clause pushes
  an error and leaves \<^verbatim>\<open>seenCombos\<close> as it is.
\<close>

definition parseCallbackCatch ::
  "(nat \<Rightarrow> thrown + string) \<Rightarrow> (nat \<Rightarrow> thrown + int) \<Rightarrow> parseState \<Rightarrow> string \<times> nat \<Rightarrow>
     parseState" where
  "parseCallbackCatch uuidv4 now st lineAndIndex =
     (let line = fst lineAndIndex;
          index = snd lineAndIndex;
          lineNumber = index + 1;
          trimmedLine = trim line
      in if trimmedLine = [] then st
         else
           (case parseLine trimmedLine of
              Inl reason \<Rightarrow>
                st\<lparr>ps_errors := ps_errors st @
                     [\<lparr>e_lineNumber = lineNumber, e_line = trimmedLine, e_reason = reason\<rparr>]\<rparr>
            | Inr x \<Rightarrow>
                let key = comboKey (x_apartment x) (x_trackingLast4 x)
                in if key \<in> ps_seenCombos st
                   then st\<lparr>ps_errors := ps_errors st @
                          [\<lparr>e_lineNumber = lineNumber, e_line = trimmedLine,
                            e_reason = ''Duplicate entry ('' @ x_apartment x @ '' + '' @
                              x_trackingLast4 x @ '' already exists)''\<rparr>]\<rparr>
                   else
                     let added = st\<lparr>ps_seenCombos := insert key (ps_seenCombos st)\<rparr>
                     in (case uuidv4 index of
                           Inl error \<Rightarrow>
                             added\<lparr>ps_errors := ps_errors added @
                               [\<lparr>e_lineNumber = lineNumber, e_line = trimmedLine,
                                 e_reason = catchReason error\<rparr>]\<rparr>
                         | Inr newId \<Rightarrow>
                             (case now index of
                                Inl error \<Rightarrow>
                                  added\<lparr>ps_errors := ps_errors added @
                                    [\<lparr>e_lineNumber = lineNumber, e_line = trimmedLine,
                                      e_reason = catchReason error\<rparr>]\<rparr>
                              | Inr importedAt \<Rightarrow>
                                  added\<lparr>ps_packages := ps_packages added @
                                    [\<lparr>p_id = newId,
                                      p_apartment = x_apartment x,
                                      p_trackingLast4 = x_trackingLast4 x,
                                      p_carrier = x_carrier x,
                                      p_recipient = x_recipient x,
                                      p_fullTracking = x_fullTracking x,
                                      p_importedAt = importedAt,
                                      p_status = Pending\<rparr>]\<rparr>))))"

definition parseLinesCatch ::
  "(nat \<Rightarrow> thrown + string) \<Rightarrow> (nat \<Rightarrow> thrown + int) \<Rightarrow> string list \<Rightarrow> parseState" where
  "parseLinesCatch uuidv4 now lines =
     foldl (parseCallbackCatch uuidv4 now)
       \<lparr>ps_packages = [], ps_errors = [], ps_seenCombos = {}\<rparr>
       (zip lines [0..<length lines])"

definition parsePackageListCatch ::
  "(nat \<Rightarrow> thrown + string) \<Rightarrow> (nat \<Rightarrow> thrown + int) \<Rightarrow> string \<Rightarrow>
     Package list \<times> ParsingError list" where
  "parsePackageListCatch uuidv4 now rawText =
     (let st = parseLinesCatch uuidv4 now (split [CHR 0x0A] rawText)
      in (ps_packages st, ps_errors st))"


subsection \<open>Notions used to state the properties of the parser\<close>

text \<open>
  A text starts with one letter, two digits and one letter, in any letter case; and a
  text is one upper-case letter, two digits and one upper-case letter.
\<close>

definition startsWithCode :: "string \<Rightarrow> bool" where
  "startsWithCode f \<longleftrightarrow>
     4 \<le> length f \<and> isLetter (f ! 0) \<and> isDigit (f ! 1) \<and> isDigit (f ! 2) \<and> isLetter (f ! 3)"

definition isApartmentCode :: "string \<Rightarrow> bool" where
  "isApartmentCode a \<longleftrightarrow>
     length a = 4 \<and> isUpper (a ! 0) \<and> isDigit (a ! 1) \<and> isDigit (a ! 2) \<and> isUpper (a ! 3)"

text \<open>The key of a package in \<^verbatim>\<open>seenCombos\<close>.\<close>

definition packageKey :: "Package \<Rightarrow> string" where
  "packageKey p = comboKey (p_apartment p) (p_trackingLast4 p)"


subsection \<open>Concrete inputs\<close>

text \<open>
  An id generator and a clock for the concrete inputs below: the ids \<^verbatim>\<open>id-0\<close>,
  \<^verbatim>\<open>id-1\<close>, ... and a time that advances with every call.
\<close>

definition exampleIds :: "nat \<Rightarrow> string" where
  "exampleIds k = ''id-'' @ showNat k"

definition exampleClock :: "nat \<Rightarrow> int" where
  "exampleClock k = 1770000000000 + int k"




section \<open>Properties of the matching algorithm\<close>

subsection \<open>The claimed set and the matching packages\<close>

lemma fold_addFoundCombo:
  "fold addFoundCombo packages S =
     S \<union> {comboKey (p_apartment p) (p_trackingLast4 p) | p.
            p \<in> set packages \<and> (p_status p = Found \<or> p_status p = Verified)}"
  by (induction packages arbitrary: S) (auto simp: addFoundCombo_def)

lemma foundCombos_eq:
  "foundCombos packages =
     {comboKey (p_apartment p) (p_trackingLast4 p) | p.
        p \<in> set packages \<and> (p_status p = Found \<or> p_status p = Verified)}"
  by (simp add: foundCombos_def fold_addFoundCombo)

lemma matchingPackages_iff:
  "i \<in> set (matchingPackages pkgs a l) \<longleftrightarrow> i < length pkgs \<and> isMatchingPackage a l (pkgs ! i)"
  by (auto simp: matchingPackages_def)

lemma matchingPackages_single:
  assumes "matchingPackages pkgs a l = [i]"
  shows "i < length pkgs" and "isMatchingPackage a l (pkgs ! i)"
  using matchingPackages_iff [of i pkgs a l] assms by simp_all

lemma foundCombos_update:
  assumes "i < length pkgs" and "p_status (pkgs ! i) = Pending"
  shows "foundCombos (pkgs[i := (pkgs ! i)\<lparr>p_status := Found\<rparr>]) =
           insert (comboKey (p_apartment (pkgs ! i)) (p_trackingLast4 (pkgs ! i))) (foundCombos pkgs)"
proof -
  let ?q = "(pkgs ! i)\<lparr>p_status := Found\<rparr>"
  have set_upd: "set (pkgs[i := ?q]) \<subseteq> insert ?q (set pkgs)"
    by (rule set_update_subset_insert)
  have mem: "?q \<in> set (pkgs[i := ?q])"
    using assms(1) by (simp add: set_update_memI)
  have keep: "p \<in> set pkgs \<Longrightarrow> p_status p \<noteq> Pending \<Longrightarrow> p \<in> set (pkgs[i := ?q])" for p
  proof -
    assume p: "p \<in> set pkgs" "p_status p \<noteq> Pending"
    then obtain j where j: "j < length pkgs" "pkgs ! j = p" by (auto simp: in_set_conv_nth)
    with p assms have "j \<noteq> i" by auto
    with j show ?thesis by (metis length_list_update nth_list_update_neq nth_mem)
  qed
  show ?thesis
    unfolding foundCombos_eq
  proof (intro set_eqI iffI)
    fix k
    assume "k \<in> {comboKey (p_apartment p) (p_trackingLast4 p) | p.
        p \<in> set (pkgs[i := ?q]) \<and> (p_status p = Found \<or> p_status p = Verified)}"
    then obtain p where p: "k = comboKey (p_apartment p) (p_trackingLast4 p)"
      "p \<in> set (pkgs[i := ?q])" "p_status p = Found \<or> p_status p = Verified" by blast
    from p(2) set_upd have "p = ?q \<or> p \<in> set pkgs" by blast
    then show "k \<in> insert (comboKey (p_apartment (pkgs ! i)) (p_trackingLast4 (pkgs ! i)))
       {comboKey (p_apartment p) (p_trackingLast4 p) | p.
        p \<in> set pkgs \<and> (p_status p = Found \<or> p_status p = Verified)}"
      using p by auto
  next
    fix k
    assume "k \<in> insert (comboKey (p_apartment (pkgs ! i)) (p_trackingLast4 (pkgs ! i)))
       {comboKey (p_apartment p) (p_trackingLast4 p) | p.
        p \<in> set pkgs \<and> (p_status p = Found \<or> p_status p = Verified)}"
    then consider "k = comboKey (p_apartment (pkgs ! i)) (p_trackingLast4 (pkgs ! i))"
      | p where "k = comboKey (p_apartment p) (p_trackingLast4 p)" "p \<in> set pkgs"
          "p_status p = Found \<or> p_status p = Verified" by blast
    then show "k \<in> {comboKey (p_apartment p) (p_trackingLast4 p) | p.
        p \<in> set (pkgs[i := ?q]) \<and> (p_status p = Found \<or> p_status p = Verified)}"
    proof cases
      case 1
      with mem show ?thesis by (intro CollectI exI [of _ ?q]) simp
    next
      case (2 p)
      then have "p \<in> set (pkgs[i := ?q])" using keep by auto
      with 2 show ?thesis by blast
    qed
  qed
qed


lemma truthyE:
  assumes "truthy v"
  obtains s where "v = Some s" and "s \<noteq> []"
  using assms by (cases v) auto

lemma matchDetection_cases [consumes 1, case_names Unreadable Duplicate Matched Ambiguous Orphan]:
  assumes "matchDetection pkgs mc d = (pkgs', mc', d')"
  obtains
    (Unreadable) "\<not> truthy (d_parsedApartment d) \<or> \<not> truthy (d_parsedLast4 d)"
      "pkgs' = pkgs" "mc' = mc" "d' = d\<lparr>d_status := Unreadable\<rparr>"
  | (Duplicate) a l where "d_parsedApartment d = Some a" "a \<noteq> []"
      "d_parsedLast4 d = Some l" "l \<noteq> []" "comboKey a l \<in> mc"
      "pkgs' = pkgs" "mc' = mc" "d' = d\<lparr>d_status := Duplicate\<rparr>"
  | (Matched) a l i where "d_parsedApartment d = Some a" "a \<noteq> []"
      "d_parsedLast4 d = Some l" "l \<noteq> []" "comboKey a l \<notin> mc"
      "matchingPackages pkgs a l = [i]"
      "pkgs' = pkgs[i := (pkgs ! i)\<lparr>p_status := Found\<rparr>]" "mc' = insert (comboKey a l) mc"
      "d' = d\<lparr>d_status := Matched, d_matchedPackageId := Some (p_id (pkgs ! i))\<rparr>"
  | (Ambiguous) a l where "d_parsedApartment d = Some a" "a \<noteq> []"
      "d_parsedLast4 d = Some l" "l \<noteq> []" "comboKey a l \<notin> mc"
      "2 \<le> length (matchingPackages pkgs a l)"
      "pkgs' = pkgs" "mc' = mc"
      "d' = d\<lparr>d_status := Ambiguous, d_notes := appendNote (d_notes d)
               ''Multiple packages match this apartment and tracking number.''\<rparr>"
  | (Orphan) a l where "d_parsedApartment d = Some a" "a \<noteq> []"
      "d_parsedLast4 d = Some l" "l \<noteq> []" "comboKey a l \<notin> mc"
      "matchingPackages pkgs a l = []"
      "pkgs' = pkgs" "mc' = mc"
      "d' = d\<lparr>d_status := Orphan, d_notes := appendNote (d_notes d)
               ''Sticker not found in imported package list.''\<rparr>"
proof (cases "truthy (d_parsedApartment d) \<and> truthy (d_parsedLast4 d)")
  case False
  with assms show ?thesis by (intro Unreadable) (auto simp: matchDetection_def)
next
  case True
  then obtain a l where al: "d_parsedApartment d = Some a" "a \<noteq> []"
      "d_parsedLast4 d = Some l" "l \<noteq> []"
    by (auto elim!: truthyE)
  show ?thesis
  proof (cases "comboKey a l \<in> mc")
    case True
    with al assms show ?thesis by (intro Duplicate [of a l]) (auto simp: matchDetection_def)
  next
    case notin: False
    show ?thesis
    proof (cases "matchingPackages pkgs a l")
      case Nil
      with al notin assms show ?thesis
        by (intro Orphan [of a l]) (auto simp: matchDetection_def)
    next
      case (Cons i rest)
      show ?thesis
      proof (cases rest)
        case Nil
        with Cons al notin assms show ?thesis
          by (intro Matched [of a l i]) (auto simp: matchDetection_def)
      next
        case (Cons j js)
        with \<open>matchingPackages pkgs a l = i # rest\<close> al notin assms show ?thesis
          by (intro Ambiguous [of a l]) (auto simp: matchDetection_def)
      qed
    qed
  qed
qed


subsection \<open>One step of the loop\<close>

lemma matchDetection_length:
  "matchDetection pkgs mc d = (pkgs', mc', d') \<Longrightarrow> length pkgs' = length pkgs"
  by (erule matchDetection_cases) simp_all

lemma matchDetection_combos_mono:
  "matchDetection pkgs mc d = (pkgs', mc', d') \<Longrightarrow> mc \<subseteq> mc'"
  by (erule matchDetection_cases) auto

lemma matchDetection_parsed:
  assumes "matchDetection pkgs mc d = (pkgs', mc', d')"
  shows "d_parsedApartment d' = d_parsedApartment d" and "d_parsedLast4 d' = d_parsedLast4 d"
  using assms by (auto elim!: matchDetection_cases)

lemma matchDetection_foundCombos:
  assumes "matchDetection pkgs mc d = (pkgs', mc', d')" and "mc = foundCombos pkgs"
  shows "mc' = foundCombos pkgs'"
  using assms(1)
proof (cases rule: matchDetection_cases)
  case (Matched a l i)
  from matchingPackages_single [OF Matched(6)]
  have i: "i < length pkgs" "isMatchingPackage a l (pkgs ! i)" .
  then have "p_status (pkgs ! i) = Pending" "p_apartment (pkgs ! i) = a"
    "p_trackingLast4 (pkgs ! i) = l"
    by (simp_all add: isMatchingPackage_def)
  with foundCombos_update [OF i(1)] Matched assms(2) show ?thesis by simp
qed (simp_all add: assms(2))

lemma matchDetection_matching_stable:
  assumes "matchDetection pkgs mc d = (pkgs', mc', d')"
    and "length (matchingPackages pkgs a l) \<noteq> 1"
  shows "matchingPackages pkgs' a l = matchingPackages pkgs a l"
  using assms(1)
proof (cases rule: matchDetection_cases)
  case (Matched a0 l0 i)
  from matchingPackages_single [OF Matched(6)]
  have i: "i < length pkgs" "isMatchingPackage a0 l0 (pkgs ! i)" .
  from assms(2) Matched(6) have ne: "\<not> (a = a0 \<and> l = l0)" by auto
  have "isMatchingPackage a l (pkgs' ! j) = isMatchingPackage a l (pkgs ! j)"
    if "j < length pkgs" for j
  proof (cases "j = i")
    case True
    with i ne Matched(7) show ?thesis by (auto simp: isMatchingPackage_def)
  next
    case False
    with Matched(7) show ?thesis by simp
  qed
  then show ?thesis
    unfolding matchingPackages_def using Matched(7) by (auto intro: filter_cong)
qed simp_all

lemma matchDetection_package_frame:
  assumes "matchDetection pkgs mc d = (pkgs', mc', d')" and "j < length pkgs"
  shows "(pkgs' ! j)\<lparr>p_status := p_status (pkgs ! j)\<rparr> = pkgs ! j"
    and "p_status (pkgs' ! j) = p_status (pkgs ! j) \<or>
         p_status (pkgs ! j) = Pending \<and> p_status (pkgs' ! j) = Found"
proof -
  show "(pkgs' ! j)\<lparr>p_status := p_status (pkgs ! j)\<rparr> = pkgs ! j"
    using assms(1)
  proof (cases rule: matchDetection_cases)
    case (Matched a l i)
    with assms(2) show ?thesis by (cases "j = i") simp_all
  qed simp_all
  show "p_status (pkgs' ! j) = p_status (pkgs ! j) \<or>
         p_status (pkgs ! j) = Pending \<and> p_status (pkgs' ! j) = Found"
    using assms(1)
  proof (cases rule: matchDetection_cases)
    case (Matched a l i)
    from matchingPackages_single [OF Matched(6)]
    have "isMatchingPackage a l (pkgs ! i)" by simp
    with Matched assms(2) show ?thesis
      by (cases "j = i") (simp_all add: isMatchingPackage_def)
  qed simp_all
qed

lemma matchDetection_detection_frame:
  assumes "matchDetection pkgs mc d = (pkgs', mc', d')"
  shows "d'\<lparr>d_status := d_status d, d_matchedPackageId := d_matchedPackageId d,
            d_notes := d_notes d\<rparr> = d"
  using assms by (auto elim!: matchDetection_cases)

subsection \<open>The whole loop\<close>

lemma matchLoop_Cons:
  assumes "matchLoop pkgs mc (d # ds) = (pkgs', mc', ds')"
  obtains pkgs1 mc1 d1 ds1 where "matchDetection pkgs mc d = (pkgs1, mc1, d1)"
    and "matchLoop pkgs1 mc1 ds = (pkgs', mc', ds1)" and "ds' = d1 # ds1"
  using assms by (auto split: prod.splits)

lemma matchLoop_length:
  "matchLoop pkgs mc ds = (pkgs', mc', ds') \<Longrightarrow>
     length pkgs' = length pkgs \<and> length ds' = length ds"
proof (induction ds arbitrary: pkgs mc pkgs' mc' ds')
  case Nil
  then show ?case by simp
next
  case (Cons d ds)
  from Cons.prems show ?case
  proof (rule matchLoop_Cons)
    fix pkgs1 mc1 d1 ds1
    assume "matchDetection pkgs mc d = (pkgs1, mc1, d1)"
      and "matchLoop pkgs1 mc1 ds = (pkgs', mc', ds1)" and "ds' = d1 # ds1"
    with Cons.IH [of pkgs1 mc1 pkgs' mc' ds1] matchDetection_length [of pkgs mc d pkgs1 mc1 d1]
    show ?thesis by simp
  qed
qed

lemma matchLoop_combos_mono:
  "matchLoop pkgs mc ds = (pkgs', mc', ds') \<Longrightarrow> mc \<subseteq> mc'"
proof (induction ds arbitrary: pkgs mc pkgs' mc' ds')
  case Nil
  then show ?case by simp
next
  case (Cons d ds)
  from Cons.prems show ?case
  proof (rule matchLoop_Cons)
    fix pkgs1 mc1 d1 ds1
    assume "matchDetection pkgs mc d = (pkgs1, mc1, d1)"
      and "matchLoop pkgs1 mc1 ds = (pkgs', mc', ds1)" and "ds' = d1 # ds1"
    with Cons.IH [of pkgs1 mc1 pkgs' mc' ds1] matchDetection_combos_mono [of pkgs mc d pkgs1 mc1 d1]
    show ?thesis by blast
  qed
qed

lemma matchLoop_foundCombos:
  "matchLoop pkgs mc ds = (pkgs', mc', ds') \<Longrightarrow> mc = foundCombos pkgs \<Longrightarrow>
     mc' = foundCombos pkgs'"
proof (induction ds arbitrary: pkgs mc pkgs' mc' ds')
  case Nil
  then show ?case by auto
next
  case (Cons d ds)
  from Cons.prems(1) show ?case
  proof (rule matchLoop_Cons)
    fix pkgs1 mc1 d1 ds1
    assume "matchDetection pkgs mc d = (pkgs1, mc1, d1)"
      and "matchLoop pkgs1 mc1 ds = (pkgs', mc', ds1)" and "ds' = d1 # ds1"
    with Cons.IH [of pkgs1 mc1 pkgs' mc' ds1] Cons.prems(2)
      matchDetection_foundCombos [of pkgs mc d pkgs1 mc1 d1]
    show ?thesis by blast
  qed
qed

lemma matchLoop_matching_stable:
  "matchLoop pkgs mc ds = (pkgs', mc', ds') \<Longrightarrow> length (matchingPackages pkgs a l) \<noteq> 1 \<Longrightarrow>
     matchingPackages pkgs' a l = matchingPackages pkgs a l"
proof (induction ds arbitrary: pkgs mc pkgs' mc' ds')
  case Nil
  then show ?case by simp
next
  case (Cons d ds)
  from Cons.prems(1) show ?case
  proof (rule matchLoop_Cons)
    fix pkgs1 mc1 d1 ds1
    assume step: "matchDetection pkgs mc d = (pkgs1, mc1, d1)"
      and rest: "matchLoop pkgs1 mc1 ds = (pkgs', mc', ds1)" and "ds' = d1 # ds1"
    from matchDetection_matching_stable [OF step Cons.prems(2)]
    have eq: "matchingPackages pkgs1 a l = matchingPackages pkgs a l" .
    with Cons.prems(2) have "length (matchingPackages pkgs1 a l) \<noteq> 1" by simp
    from Cons.IH [OF rest this] eq show ?thesis by simp
  qed
qed

subsection \<open>Statuses that agree with the final state\<close>

lemma matchDetection_settled:
  assumes "matchDetection pkgs mc d = (pkgs', mc', d')"
  shows "settled pkgs' mc' d'"
  using assms by (cases rule: matchDetection_cases) (auto simp: settled_def)

lemma settled_transport:
  assumes "settled pkgs mc d" and "matchLoop pkgs mc ds = (pkgs', mc', ds')"
  shows "settled pkgs' mc' d"
proof -
  from matchLoop_combos_mono [OF assms(2)] have mono: "mc \<subseteq> mc'" .
  show ?thesis
  proof (cases "d_status d")
    case Orphan
    with assms(1) have "length (matchingPackages pkgs (the (d_parsedApartment d)) (the (d_parsedLast4 d))) \<noteq> 1"
      by (simp add: settled_def)
    from matchLoop_matching_stable [OF assms(2) this] Orphan assms(1) show ?thesis
      by (simp add: settled_def)
  next
    case Ambiguous
    with assms(1) have "length (matchingPackages pkgs (the (d_parsedApartment d)) (the (d_parsedLast4 d))) \<noteq> 1"
      by (simp add: settled_def)
    from matchLoop_matching_stable [OF assms(2) this] Ambiguous assms(1) show ?thesis
      by (simp add: settled_def)
  qed (use assms(1) mono in \<open>auto simp: settled_def\<close>)
qed

lemma matchLoop_settled:
  "matchLoop pkgs mc ds = (pkgs', mc', ds') \<Longrightarrow> d' \<in> set ds' \<Longrightarrow> settled pkgs' mc' d'"
proof (induction ds arbitrary: pkgs mc pkgs' mc' ds')
  case Nil
  then show ?case by simp
next
  case (Cons d ds)
  from Cons.prems(1) show ?case
  proof (rule matchLoop_Cons)
    fix pkgs1 mc1 d1 ds1
    assume step: "matchDetection pkgs mc d = (pkgs1, mc1, d1)"
      and rest: "matchLoop pkgs1 mc1 ds = (pkgs', mc', ds1)" and ds': "ds' = d1 # ds1"
    from Cons.prems(2) ds' consider "d' = d1" | "d' \<in> set ds1" by auto
    then show ?thesis
    proof cases
      case 1
      with settled_transport [OF matchDetection_settled [OF step] rest] show ?thesis by simp
    next
      case 2
      with Cons.IH [OF rest] show ?thesis .
    qed
  qed
qed

lemma matchDetection_of_settled:
  assumes "settled pkgs mc d"
  obtains d' where "matchDetection pkgs mc d = (pkgs, mc, d')"
    and "d_status d' =
      (if truthy (d_parsedApartment d) \<and> truthy (d_parsedLast4 d) \<and>
          comboKey (the (d_parsedApartment d)) (the (d_parsedLast4 d)) \<in> mc
       then Duplicate else d_status d)"
proof -
  obtain pkgs' mc' d' where step: "matchDetection pkgs mc d = (pkgs', mc', d')"
    by (metis prod_cases3)
  from step have "pkgs' = pkgs \<and> mc' = mc \<and> d_status d' =
      (if truthy (d_parsedApartment d) \<and> truthy (d_parsedLast4 d) \<and>
          comboKey (the (d_parsedApartment d)) (the (d_parsedLast4 d)) \<in> mc
       then Duplicate else d_status d)"
  proof (cases rule: matchDetection_cases)
    case Unreadable
    with assms show ?thesis by (cases "d_status d") (auto simp: settled_def)
  next
    case (Duplicate a l)
    then show ?thesis by simp
  next
    case (Matched a l i)
    with assms show ?thesis by (cases "d_status d") (auto simp: settled_def)
  next
    case (Ambiguous a l)
    with assms show ?thesis by (cases "d_status d") (auto simp: settled_def)
  next
    case (Orphan a l)
    with assms show ?thesis by (cases "d_status d") (auto simp: settled_def)
  qed
  with step that show ?thesis by blast
qed

lemma matchLoop_of_settled:
  assumes "\<forall>d \<in> set ds. settled pkgs mc d"
  obtains ds' where "matchLoop pkgs mc ds = (pkgs, mc, ds')" and "length ds' = length ds"
    and "\<forall>i<length ds. d_status (ds' ! i) =
      (if truthy (d_parsedApartment (ds ! i)) \<and> truthy (d_parsedLast4 (ds ! i)) \<and>
          comboKey (the (d_parsedApartment (ds ! i))) (the (d_parsedLast4 (ds ! i))) \<in> mc
       then Duplicate else d_status (ds ! i))"
proof -
  from assms have "\<exists>ds'. matchLoop pkgs mc ds = (pkgs, mc, ds') \<and> length ds' = length ds \<and>
    (\<forall>i<length ds. d_status (ds' ! i) =
      (if truthy (d_parsedApartment (ds ! i)) \<and> truthy (d_parsedLast4 (ds ! i)) \<and>
          comboKey (the (d_parsedApartment (ds ! i))) (the (d_parsedLast4 (ds ! i))) \<in> mc
       then Duplicate else d_status (ds ! i)))"
  proof (induction ds)
    case Nil
    then show ?case by simp
  next
    case (Cons d ds)
    from Cons.prems have "settled pkgs mc d" by simp
    then obtain d' where step: "matchDetection pkgs mc d = (pkgs, mc, d')"
      and st: "d_status d' =
      (if truthy (d_parsedApartment d) \<and> truthy (d_parsedLast4 d) \<and>
          comboKey (the (d_parsedApartment d)) (the (d_parsedLast4 d)) \<in> mc
       then Duplicate else d_status d)"
      by (rule matchDetection_of_settled)
    from Cons obtain ds' where rest: "matchLoop pkgs mc ds = (pkgs, mc, ds')"
      and len: "length ds' = length ds"
      and sts: "\<forall>i<length ds. d_status (ds' ! i) =
      (if truthy (d_parsedApartment (ds ! i)) \<and> truthy (d_parsedLast4 (ds ! i)) \<and>
          comboKey (the (d_parsedApartment (ds ! i))) (the (d_parsedLast4 (ds ! i))) \<in> mc
       then Duplicate else d_status (ds ! i))"
      by auto
    have "matchLoop pkgs mc (d # ds) = (pkgs, mc, d' # ds')"
      using step rest by simp
    moreover have "length (d' # ds') = length (d # ds)" using len by simp
    moreover have "\<forall>i<length (d # ds). d_status ((d' # ds') ! i) =
      (if truthy (d_parsedApartment ((d # ds) ! i)) \<and> truthy (d_parsedLast4 ((d # ds) ! i)) \<and>
          comboKey (the (d_parsedApartment ((d # ds) ! i))) (the (d_parsedLast4 ((d # ds) ! i))) \<in> mc
       then Duplicate else d_status ((d # ds) ! i))"
    proof (intro allI impI)
      fix i assume "i < length (d # ds)"
      then show "d_status ((d' # ds') ! i) =
      (if truthy (d_parsedApartment ((d # ds) ! i)) \<and> truthy (d_parsedLast4 ((d # ds) ! i)) \<and>
          comboKey (the (d_parsedApartment ((d # ds) ! i))) (the (d_parsedLast4 ((d # ds) ! i))) \<in> mc
       then Duplicate else d_status ((d # ds) ! i))"
        using st sts by (cases i) simp_all
    qed
    ultimately show ?case by blast
  qed
  with that show ?thesis by blast
qed


subsection \<open>What the loop leaves unchanged\<close>

lemma matchLoop_append:
  "matchLoop pkgs mc (xs @ ys) =
     (case matchLoop pkgs mc xs of
        (pkgs1, mc1, xs') \<Rightarrow>
          (case matchLoop pkgs1 mc1 ys of
             (pkgs2, mc2, ys') \<Rightarrow> (pkgs2, mc2, xs' @ ys')))"
  by (induction xs arbitrary: pkgs mc) (auto split: prod.splits)

lemma package_frame_trans:
  fixes p q r :: Package
  assumes "q\<lparr>p_status := p_status p\<rparr> = p" and "r\<lparr>p_status := p_status q\<rparr> = q"
  shows "r\<lparr>p_status := p_status p\<rparr> = p"
  using assms by (cases p, cases q, cases r) auto

lemma matchLoop_package_frame:
  "matchLoop pkgs mc ds = (pkgs', mc', ds') \<Longrightarrow> j < length pkgs \<Longrightarrow>
     (pkgs' ! j)\<lparr>p_status := p_status (pkgs ! j)\<rparr> = pkgs ! j \<and>
     (p_status (pkgs' ! j) = p_status (pkgs ! j) \<or>
      p_status (pkgs ! j) = Pending \<and> p_status (pkgs' ! j) = Found)"
proof (induction ds arbitrary: pkgs mc pkgs' mc' ds')
  case Nil
  then show ?case by simp
next
  case (Cons d ds)
  from Cons.prems(1) show ?case
  proof (rule matchLoop_Cons)
    fix pkgs1 mc1 d1 ds1
    assume step: "matchDetection pkgs mc d = (pkgs1, mc1, d1)"
      and rest: "matchLoop pkgs1 mc1 ds = (pkgs', mc', ds1)" and "ds' = d1 # ds1"
    from matchDetection_length [OF step] Cons.prems(2) have j: "j < length pkgs1" by simp
    note a = matchDetection_package_frame [OF step Cons.prems(2)]
    note b = Cons.IH [OF rest j]
    from a(1) b have "(pkgs' ! j)\<lparr>p_status := p_status (pkgs ! j)\<rparr> = pkgs ! j"
      by (blast intro: package_frame_trans)
    moreover from a(2) b have "p_status (pkgs' ! j) = p_status (pkgs ! j) \<or>
      p_status (pkgs ! j) = Pending \<and> p_status (pkgs' ! j) = Found" by auto
    ultimately show ?thesis by blast
  qed
qed

lemma matchLoop_detection_frame:
  "matchLoop pkgs mc ds = (pkgs', mc', ds') \<Longrightarrow> k < length ds \<Longrightarrow>
     (ds' ! k)\<lparr>d_status := d_status (ds ! k), d_matchedPackageId := d_matchedPackageId (ds ! k),
        d_notes := d_notes (ds ! k)\<rparr> = ds ! k"
proof (induction ds arbitrary: pkgs mc pkgs' mc' ds' k)
  case Nil
  then show ?case by simp
next
  case (Cons d ds)
  from Cons.prems(1) show ?case
  proof (rule matchLoop_Cons)
    fix pkgs1 mc1 d1 ds1
    assume step: "matchDetection pkgs mc d = (pkgs1, mc1, d1)"
      and rest: "matchLoop pkgs1 mc1 ds = (pkgs', mc', ds1)" and ds': "ds' = d1 # ds1"
    show ?thesis
    proof (cases k)
      case 0
      with matchDetection_detection_frame [OF step] ds' show ?thesis by simp
    next
      case (Suc k')
      with Cons.prems(2) have "k' < length ds" by simp
      from Cons.IH [OF rest this] Suc ds' show ?thesis by simp
    qed
  qed
qed

lemma matchLoop_claimed_duplicate:
  "matchLoop pkgs mc ds = (pkgs', mc', ds') \<Longrightarrow> k < length ds \<Longrightarrow>
   d_parsedApartment (ds ! k) = Some a \<Longrightarrow> a \<noteq> [] \<Longrightarrow>
   d_parsedLast4 (ds ! k) = Some l \<Longrightarrow> l \<noteq> [] \<Longrightarrow> comboKey a l \<in> mc \<Longrightarrow>
   d_status (ds' ! k) = Duplicate"
proof (induction ds arbitrary: pkgs mc pkgs' mc' ds' k)
  case Nil
  then show ?case by simp
next
  case (Cons d ds)
  from Cons.prems(1) show ?case
  proof (rule matchLoop_Cons)
    fix pkgs1 mc1 d1 ds1
    assume step: "matchDetection pkgs mc d = (pkgs1, mc1, d1)"
      and rest: "matchLoop pkgs1 mc1 ds = (pkgs', mc', ds1)" and ds': "ds' = d1 # ds1"
    show ?thesis
    proof (cases k)
      case 0
      with Cons.prems have d: "d_parsedApartment d = Some a" "d_parsedLast4 d = Some l" by simp_all
      from step d Cons.prems(4,6,7) have "d_status d1 = Duplicate"
        by (cases rule: matchDetection_cases) auto
      with 0 ds' show ?thesis by simp
    next
      case (Suc k')
      with Cons.prems have k': "k' < length ds" "d_parsedApartment (ds ! k') = Some a"
        "d_parsedLast4 (ds ! k') = Some l" by simp_all
      from matchDetection_combos_mono [OF step] Cons.prems(7) have "comboKey a l \<in> mc1" by blast
      from Cons.IH [OF rest k'(1,2) Cons.prems(4) k'(3) Cons.prems(6) this] Suc ds'
      show ?thesis by simp
    qed
  qed
qed

subsection \<open>A single pending package\<close>

lemma filter_index_upt: "i < n \<Longrightarrow> filter (\<lambda>j. j = i) [0..<n] = [i]"
proof (induction n)
  case 0
  then show ?case by simp
next
  case (Suc n)
  show ?case
  proof (cases "i = n")
    case True
    then show ?thesis by simp
  next
    case False
    with Suc have "filter (\<lambda>j. j = i) [0..<n] = [i]" by simp
    with False show ?thesis by simp
  qed
qed

lemma only_matching:
  assumes one: "i < length pkgs" "isMatchingPackage a l (pkgs ! i)"
    and only: "\<forall>j<length pkgs. isMatchingPackage a l (pkgs ! j) \<longrightarrow> j = i"
  shows "matchingPackages pkgs a l = [i]"
proof -
  have "filter (\<lambda>j. isMatchingPackage a l (pkgs ! j)) [0..<length pkgs] =
        filter (\<lambda>j. j = i) [0..<length pkgs]"
  proof (rule filter_cong [OF refl])
    fix j
    assume "j \<in> set [0..<length pkgs]"
    then have j: "j < length pkgs" by simp
    show "isMatchingPackage a l (pkgs ! j) = (j = i)"
    proof
      assume "isMatchingPackage a l (pkgs ! j)"
      with only j show "j = i" by blast
    next
      assume "j = i"
      with one(2) show "isMatchingPackage a l (pkgs ! j)" by simp
    qed
  qed
  also have "\<dots> = [i]" using one(1) by (rule filter_index_upt)
  finally show ?thesis by (simp add: matchingPackages_def)
qed

lemma package_frame_id:
  fixes p q :: Package
  assumes "q\<lparr>p_status := s\<rparr> = p"
  shows "p_id q = p_id p"
proof -
  have "p_id (q\<lparr>p_status := s\<rparr>) = p_id q" by simp
  with assms show ?thesis by simp
qed

text \<open>
  The step of the loop at a detection with truthy parsed fields and an unclaimed combo
  that exactly one pending package matches, and its consequences for the whole call.
\<close>

lemma unique_truthy_match:
  assumes run: "matchDetections packages (pre @ d # post) = (updatedPackages, updatedDetections)"
    and before: "matchLoop packages (foundCombos packages) pre = (pkgs, mc, pre')"
    and apartment: "d_parsedApartment d = Some a" "a \<noteq> []"
    and last4: "d_parsedLast4 d = Some l" "l \<noteq> []"
    and unclaimed: "comboKey a l \<notin> mc"
    and one: "i < length pkgs" "isMatchingPackage a l (pkgs ! i)"
    and only: "\<forall>j<length pkgs. isMatchingPackage a l (pkgs ! j) \<longrightarrow> j = i"
  shows "p_status (updatedPackages ! i) = Found \<and>
     d_status (updatedDetections ! length pre) = Matched \<and>
     d_matchedPackageId (updatedDetections ! length pre) = Some (p_id (packages ! i)) \<and>
     fst (snd (matchDetection pkgs mc d)) = insert (comboKey a l) mc \<and>
     (\<forall>k<length post.
        d_parsedApartment (post ! k) = Some a \<and> d_parsedLast4 (post ! k) = Some l \<longrightarrow>
        d_status (updatedDetections ! (length pre + 1 + k)) = Duplicate)"
proof -
  have single: "matchingPackages pkgs a l = [i]"
    using one only by (rule only_matching)
  define pkgs1 where "pkgs1 = pkgs[i := (pkgs ! i)\<lparr>p_status := Found\<rparr>]"
  define d1 where "d1 = d\<lparr>d_status := Matched, d_matchedPackageId := Some (p_id (pkgs ! i))\<rparr>"
  have step: "matchDetection pkgs mc d = (pkgs1, insert (comboKey a l) mc, d1)"
    using apartment last4 unclaimed single by (simp add: matchDetection_def pkgs1_def d1_def)
  obtain pkgs2 mc2 post' where rest: "matchLoop pkgs1 (insert (comboKey a l) mc) post = (pkgs2, mc2, post')"
    by (metis prod_cases3)
  have whole: "matchLoop packages (foundCombos packages) (pre @ d # post) = (pkgs2, mc2, pre' @ d1 # post')"
    using before step rest by (simp add: matchLoop_append)
  with run have out: "updatedPackages = pkgs2" "updatedDetections = pre' @ d1 # post'"
    by (simp_all add: matchDetections_def)
  from matchLoop_length [OF before] have len: "length pkgs = length packages" "length pre' = length pre"
    by simp_all
  from matchLoop_length [OF rest] have len2: "length post' = length post" by simp
  have i1: "i < length pkgs1" using one(1) by (simp add: pkgs1_def)
  have "p_status (pkgs1 ! i) = Found" using one(1) by (simp add: pkgs1_def)
  with matchLoop_package_frame [OF rest i1] have found: "p_status (pkgs2 ! i) = Found" by auto
  have at: "(pre' @ d1 # post') ! length pre = d1" using len(2) by (simp add: nth_append)
  from matchLoop_package_frame [OF before, of i] one(1) len(1)
  have "(pkgs ! i)\<lparr>p_status := p_status (packages ! i)\<rparr> = packages ! i" by simp
  then have ident: "p_id (pkgs ! i) = p_id (packages ! i)"
    by (rule package_frame_id)
  have later: "d_status ((pre' @ d1 # post') ! (length pre + 1 + k)) = Duplicate"
    if "k < length post" "d_parsedApartment (post ! k) = Some a" "d_parsedLast4 (post ! k) = Some l" for k
  proof -
    have "d_status (post' ! k) = Duplicate"
      using matchLoop_claimed_duplicate [OF rest that(1,2) apartment(2) that(3) last4(2)] by simp
    moreover have "(pre' @ d1 # post') ! (length pre + 1 + k) = post' ! k"
      using len(2) by (simp add: nth_append)
    ultimately show ?thesis by simp
  qed
  show ?thesis
    using found at ident later step by (simp add: out d1_def)
qed

text \<open>
  Between the packages given to the call and the packages at any point of the loop,
  only the status of a package can differ.
\<close>

lemma package_frame_key:
  fixes p q :: Package
  assumes "q\<lparr>p_status := s\<rparr> = p"
  shows "p_apartment q = p_apartment p \<and> p_trackingLast4 q = p_trackingLast4 p"
proof -
  have "p_apartment (q\<lparr>p_status := s\<rparr>) = p_apartment q"
    "p_trackingLast4 (q\<lparr>p_status := s\<rparr>) = p_trackingLast4 q"
    by simp_all
  with assms show ?thesis by simp
qed

section \<open>The store model refines the value model\<close>

subsection \<open>The copies\<close>

lemma upt_shift: "[n..<n + m] = map ((+) n) [0..<m]"
proof -
  have "map (\<lambda>i. i + n) [0..<m] = [n..<m + n]" by (rule map_add_upt)
  moreover have "(\<lambda>i. i + n) = (+) n" by (rule ext) simp
  moreover have "m + n = n + m" by simp
  ultimately show ?thesis by simp
qed

lemma shifted_indices_Suc:
  "map ((+) n) [0..<Suc m] = n # map ((+) (Suc n)) [0..<m]"
  by (simp only: map_upt_Suc) simp

lemma copyPackages_result:
  "copyPackages s refs = (s', copies) \<Longrightarrow> \<forall>r \<in> set refs. r < length (packageObjects s) \<Longrightarrow>
     packageObjects s' = packageObjects s @ map (nth (packageObjects s)) refs \<and>
     detectionObjects s' = detectionObjects s \<and>
     copies = map ((+) (length (packageObjects s))) [0..<length refs]"
proof (induction refs arbitrary: s s' copies)
  case Nil
  then show ?case by auto
next
  case (Cons r refs)
  define s1 where "s1 = s\<lparr>packageObjects := packageObjects s @ [packageObjects s ! r]\<rparr>"
  obtain s2 cs where rest: "copyPackages s1 refs = (s2, cs)" by (metis surj_pair)
  with Cons.prems(1) have out: "s' = s2" "copies = length (packageObjects s) # cs"
    by (simp_all add: newPackage_def s1_def)
  have valid: "\<forall>q \<in> set refs. q < length (packageObjects s1)"
    using Cons.prems(2) by (auto simp: s1_def)
  from Cons.IH [OF rest valid]
  have ih: "packageObjects s2 = packageObjects s1 @ map (nth (packageObjects s1)) refs"
    "detectionObjects s2 = detectionObjects s1"
    "cs = map ((+) (length (packageObjects s1))) [0..<length refs]"
    by simp_all
  have same: "map (nth (packageObjects s1)) refs = map (nth (packageObjects s)) refs"
    using Cons.prems(2) by (auto simp: s1_def nth_append)
  have len1: "length (packageObjects s1) = Suc (length (packageObjects s))"
    by (simp add: s1_def)
  have "length (r # refs) = Suc (length refs)" by simp
  then have "copies = map ((+) (length (packageObjects s))) [0..<length (r # refs)]"
    unfolding out ih(3) len1 by (simp only: shifted_indices_Suc)
  moreover have "packageObjects s' = packageObjects s @ map (nth (packageObjects s)) (r # refs)"
    using ih(1) same by (simp add: out s1_def)
  moreover have "detectionObjects s' = detectionObjects s"
    using ih(2) by (simp add: out s1_def)
  ultimately show ?case by blast
qed

lemma copyDetections_result:
  "copyDetections s refs = (s', copies) \<Longrightarrow> \<forall>r \<in> set refs. r < length (detectionObjects s) \<Longrightarrow>
     detectionObjects s' = detectionObjects s @ map (nth (detectionObjects s)) refs \<and>
     packageObjects s' = packageObjects s \<and>
     copies = map ((+) (length (detectionObjects s))) [0..<length refs]"
proof (induction refs arbitrary: s s' copies)
  case Nil
  then show ?case by auto
next
  case (Cons r refs)
  define s1 where "s1 = s\<lparr>detectionObjects := detectionObjects s @ [detectionObjects s ! r]\<rparr>"
  obtain s2 cs where rest: "copyDetections s1 refs = (s2, cs)" by (metis surj_pair)
  with Cons.prems(1) have out: "s' = s2" "copies = length (detectionObjects s) # cs"
    by (simp_all add: newDetection_def s1_def)
  have valid: "\<forall>q \<in> set refs. q < length (detectionObjects s1)"
    using Cons.prems(2) by (auto simp: s1_def)
  from Cons.IH [OF rest valid]
  have ih: "detectionObjects s2 = detectionObjects s1 @ map (nth (detectionObjects s1)) refs"
    "packageObjects s2 = packageObjects s1"
    "cs = map ((+) (length (detectionObjects s1))) [0..<length refs]"
    by simp_all
  have same: "map (nth (detectionObjects s1)) refs = map (nth (detectionObjects s)) refs"
    using Cons.prems(2) by (auto simp: s1_def nth_append)
  have len1: "length (detectionObjects s1) = Suc (length (detectionObjects s))"
    by (simp add: s1_def)
  have "length (r # refs) = Suc (length refs)" by simp
  then have "copies = map ((+) (length (detectionObjects s))) [0..<length (r # refs)]"
    unfolding out ih(3) len1 by (simp only: shifted_indices_Suc)
  moreover have "detectionObjects s' = detectionObjects s @ map (nth (detectionObjects s)) (r # refs)"
    using ih(1) same by (simp add: out s1_def)
  moreover have "packageObjects s' = packageObjects s"
    using ih(2) by (simp add: out s1_def)
  ultimately show ?case by blast
qed

lemma filter_copies:
  "filter (\<lambda>pkg. P ((P0 @ pk) ! pkg)) (map ((+) (length P0)) [0..<length pk]) =
     map ((+) (length P0)) (filter (\<lambda>i. P (pk ! i)) [0..<length pk])"
  by (simp add: filter_map comp_def)

subsection \<open>The body of the loop\<close>

lemma update_copy: "(xs @ ys)[length xs + k := v] = xs @ ys[k := v]"
  by (simp add: list_update_append)

lemma matchDetectionStore_refines:
  assumes P: "packageObjects s = P0 @ pk" and D: "detectionObjects s = D0 @ dk"
    and k: "k < length dk"
    and step: "matchDetection pk mc (dk ! k) = (pk', mc', d')"
  shows "\<exists>s'. matchDetectionStore s (map ((+) (length P0)) [0..<length pk]) mc (length D0 + k) = (s', mc') \<and>
     packageObjects s' = P0 @ pk' \<and> detectionObjects s' = D0 @ dk[k := d']"
proof -
  have rd: "detectionObjects s ! (length D0 + k) = dk ! k"
    by (simp add: D)
  have filt: "filter (\<lambda>pkg. isMatchingPackage a l ((P0 @ pk) ! pkg))
       (map ((+) (length P0)) [0..<length pk]) = map ((+) (length P0)) (matchingPackages pk a l)" for a l
    unfolding matchingPackages_def by (rule filter_copies)
  from step show ?thesis
  proof (cases rule: matchDetection_cases)
    case Unreadable
    then show ?thesis
      by (auto simp: matchDetectionStore_def rd setDetectionStatus_def P D Let_def update_copy)
  next
    case (Duplicate a l)
    then show ?thesis
      by (simp add: matchDetectionStore_def rd setDetectionStatus_def P D Let_def update_copy)
  next
    case (Matched a l i)
    from matchingPackages_single [OF Matched(6)] have i: "i < length pk" by simp
    from Matched i k show ?thesis
      by (simp add: matchDetectionStore_def rd filt setDetectionStatus_def setPackageStatus_def
          setMatchedPackageId_def P D Let_def update_copy)
  next
    case (Ambiguous a l)
    then obtain i j rest where "matchingPackages pk a l = i # j # rest"
      by (cases "matchingPackages pk a l" rule: list.exhaust [case_product list.exhaust])
         (auto simp: neq_Nil_conv Suc_le_eq intro: list.exhaust)
    with Ambiguous k show ?thesis
      by (simp add: matchDetectionStore_def rd filt setDetectionStatus_def setNotes_def
          P D Let_def update_copy)
  next
    case (Orphan a l)
    with k show ?thesis
      by (simp add: matchDetectionStore_def rd filt setDetectionStatus_def setNotes_def
          P D Let_def update_copy)
  qed
qed

subsection \<open>The loop\<close>

lemma read_copies:
  "length ys = n \<Longrightarrow> map (nth (xs @ ys)) (map ((+) (length xs)) [0..<n]) = ys"
proof -
  assume "length ys = n"
  moreover have "map (\<lambda>i. ys ! i) [0..<length ys] = ys" by (rule map_nth)
  ultimately show ?thesis by (simp add: comp_def)
qed

lemma matchLoopStore_refines:
  "packageObjects s = P0 @ pk \<Longrightarrow> detectionObjects s = D0 @ dk \<Longrightarrow> k \<le> length dk \<Longrightarrow>
   matchLoop pk mc (drop k dk) = (pk', mc', ds') \<Longrightarrow> n = length dk - k \<Longrightarrow>
   \<exists>s'. matchLoopStore s (map ((+) (length P0)) [0..<length pk]) mc
           (map ((+) (length D0)) [k..<length dk]) = (s', mc') \<and>
        packageObjects s' = P0 @ pk' \<and> detectionObjects s' = D0 @ take k dk @ ds'"
proof (induction n arbitrary: s pk dk k mc ds')
  case 0
  then have "k = length dk" by simp
  with 0 show ?case by simp
next
  case (Suc n)
  then have k: "k < length dk" by simp
  have refs: "map ((+) (length D0)) [k..<length dk] =
      (length D0 + k) # map ((+) (length D0)) [Suc k..<length dk]"
    using k by (simp add: upt_conv_Cons)
  have dr: "drop k dk = dk ! k # drop (Suc k) dk"
    using k by (simp add: Cons_nth_drop_Suc)
  from Suc.prems(4) have "matchLoop pk mc (dk ! k # drop (Suc k) dk) = (pk', mc', ds')"
    by (simp only: dr)
  then obtain pk1 mc1 d1 ds1
    where step: "matchDetection pk mc (dk ! k) = (pk1, mc1, d1)"
      and rest: "matchLoop pk1 mc1 (drop (Suc k) dk) = (pk', mc', ds1)" and ds': "ds' = d1 # ds1"
    by (rule matchLoop_Cons)
  from matchDetectionStore_refines [OF Suc.prems(1,2) k step]
  obtain s1 where s1: "matchDetectionStore s (map ((+) (length P0)) [0..<length pk]) mc (length D0 + k) = (s1, mc1)"
    "packageObjects s1 = P0 @ pk1" "detectionObjects s1 = D0 @ dk[k := d1]"
    by blast
  from matchDetection_length [OF step] have len: "length pk1 = length pk" .
  have rest': "matchLoop pk1 mc1 (drop (Suc k) (dk[k := d1])) = (pk', mc', ds1)"
    using rest by simp
  have n: "n = length (dk[k := d1]) - Suc k" using Suc.prems(5) by simp
  have k': "Suc k \<le> length (dk[k := d1])" using k by simp
  from Suc.IH [OF s1(2,3) k' rest' n]
  obtain s' where s': "matchLoopStore s1 (map ((+) (length P0)) [0..<length pk1]) mc1
           (map ((+) (length D0)) [Suc k..<length (dk[k := d1])]) = (s', mc')"
    "packageObjects s' = P0 @ pk'" "detectionObjects s' = D0 @ take (Suc k) (dk[k := d1]) @ ds1"
    by blast
  have tk: "take (Suc k) (dk[k := d1]) @ ds1 = take k dk @ ds'"
    using k by (simp add: take_Suc_conv_app_nth ds')
  have "matchLoopStore s (map ((+) (length P0)) [0..<length pk]) mc
           (map ((+) (length D0)) [k..<length dk]) = (s', mc')"
    using s1(1) s'(1) by (simp add: refs len)
  with s'(2,3) tk show ?case by simp
qed


section \<open>Properties of the parser\<close>

subsection \<open>The apartment pattern\<close>

lemma matchFrom_after_start:
  "length s < n \<Longrightarrow> matchFrom n (Seq Bol r) i s = None"
proof (induction s arbitrary: i)
  case Nil
  then show ?case by simp
next
  case (Cons c s)
  then show ?case by simp
qed

lemma match_Bol:
  "match (Seq Bol r) s =
     (case rmatch (length s) r (s, []) of
        [] \<Rightarrow> None
      | (s', cs) # _ \<Rightarrow>
          Some \<lparr>m_index = 0, m_text = take (length s - length s') s, m_captures = cs\<rparr>)"
proof (cases s)
  case Nil
  then show ?thesis by (simp add: match_def split: list.splits)
next
  case (Cons c t)
  have "matchFrom (length s) (Seq Bol r) (Suc 0) t = None"
    by (rule matchFrom_after_start) (simp add: Cons)
  then show ?thesis
    by (simp add: match_def Cons split: list.splits)
qed

lemma rmatch_code:
  "rmatch n (Grp 1 (seq [Chr isLetter, Chr isDigit, Chr isDigit, Chr isLetter])) (f, []) =
     (if startsWithCode f then [(drop 4 f, [(1, take 4 f)])] else [])"
proof (cases f)
  case Nil
  then show ?thesis by (simp add: startsWithCode_def)
next
  case f1: (Cons a f1)
  show ?thesis
  proof (cases f1)
    case Nil
    with f1 show ?thesis by (simp add: startsWithCode_def)
  next
    case f2: (Cons b f2)
    show ?thesis
    proof (cases f2)
      case Nil
      with f1 f2 show ?thesis by (simp add: startsWithCode_def)
    next
      case f3: (Cons c f3)
      show ?thesis
      proof (cases f3)
        case Nil
        with f1 f2 f3 show ?thesis by (simp add: startsWithCode_def)
      next
        case (Cons d f4)
        with f1 f2 f3 show ?thesis by (simp add: startsWithCode_def)
      qed
    qed
  qed
qed

lemma match_apartmentRegex:
  "match apartmentRegex f =
     (if startsWithCode f
      then Some \<lparr>m_index = 0, m_text = take 4 f, m_captures = [(1, take 4 f)]\<rparr>
      else None)"
proof -
  have eq: "apartmentRegex = Seq Bol (Grp 1 (seq [Chr isLetter, Chr isDigit, Chr isDigit, Chr isLetter]))"
    by (simp add: apartmentRegex_def)
  have "match apartmentRegex f =
     (case rmatch (length f) (Grp 1 (seq [Chr isLetter, Chr isDigit, Chr isDigit, Chr isLetter])) (f, []) of
        [] \<Rightarrow> None
      | (s', cs) # _ \<Rightarrow>
          Some \<lparr>m_index = 0, m_text = take (length f - length s') f, m_captures = cs\<rparr>)"
    unfolding eq by (rule match_Bol)
  also have "\<dots> = (if startsWithCode f
      then Some \<lparr>m_index = 0, m_text = take 4 f, m_captures = [(1, take 4 f)]\<rparr>
      else None)"
    unfolding rmatch_code by (simp add: startsWithCode_def)
  finally show ?thesis .
qed

lemma toUpperChar_letter: "isLetter c \<Longrightarrow> isUpper (toUpperChar c)"
  by (auto simp: isLetter_def isUpper_def isLower_def toUpperChar_def)

lemma toUpperChar_digit: "isDigit c \<Longrightarrow> toUpperChar c = c"
  by (auto simp: isDigit_def isLower_def toUpperChar_def)

lemma four_or_more:
  assumes "4 \<le> length f"
  obtains a b c d rest where "f = a # b # c # d # rest"
proof -
  from assms obtain a f1 where f1: "f = a # f1" by (cases f) auto
  with assms obtain b f2 where f2: "f1 = b # f2" by (cases f1) auto
  with assms f1 obtain c f3 where f3: "f2 = c # f3" by (cases f2) auto
  with assms f1 f2 obtain d f4 where f4: "f3 = d # f4" by (cases f3) auto
  with f1 f2 f3 that show ?thesis by blast
qed

lemma toUpperCase_code:
  assumes "startsWithCode f"
  shows "isApartmentCode (toUpperCase (take 4 f))"
proof -
  from assms have "4 \<le> length f" by (simp add: startsWithCode_def)
  then obtain a b c d rest where f: "f = a # b # c # d # rest" by (rule four_or_more)
  with assms show ?thesis
    by (simp add: startsWithCode_def isApartmentCode_def toUpperCase_def
        toUpperChar_letter toUpperChar_digit)
qed



subsection \<open>One line\<close>

lemma parseCarrierTracking_apartment:
  "parseCarrierTracking apartment field = Inr x \<Longrightarrow> x_apartment x = apartment"
  by (auto simp: parseCarrierTracking_def Let_def split: if_splits)

lemma group_apartment:
  assumes "match apartmentRegex f = Some m"
  shows "startsWithCode f" and "group m 1 = take 4 f" and "m_text m = take 4 f"
  using assms by (auto simp: match_apartmentRegex group_def split: if_splits)

lemma parseAnchored_apartment:
  assumes "parseAnchored t i = Inr (a, f)"
  shows "startsWithCode (take i t) \<and> a = toUpperCase (take 4 (take i t))"
proof (cases "match apartmentRegex (take i t)")
  case None
  with assms show ?thesis by (simp add: parseAnchored_def)
next
  case (Some m)
  note g = group_apartment [OF Some]
  from assms Some have "a = toUpperCase (group m 1)"
    by (auto simp: parseAnchored_def Let_def split: if_splits)
  with g show ?thesis by simp
qed

lemma parseFields_apartment:
  assumes "parseFields t = Inr (a, f)"
  shows "startsWithCode (splitFields t ! 0) \<and> a = toUpperCase (take 4 (splitFields t ! 0))"
proof (cases "match apartmentRegex (splitFields t ! 0)")
  case None
  with assms show ?thesis
    by (simp add: parseFields_def Let_def split: if_splits)
next
  case (Some m)
  note g = group_apartment [OF Some]
  from assms Some have "a = toUpperCase (group m 1)"
    by (simp add: parseFields_def Let_def split: if_splits)
  with g show ?thesis by simp
qed

lemma segmentLine_apartment:
  assumes "segmentLine t = Inr (a, f)"
  shows "isApartmentCode a"
proof (cases "match carrierRefPattern t")
  case None
  with assms have "parseFields t = Inr (a, f)" by (simp add: segmentLine_def)
  from parseFields_apartment [OF this] toUpperCase_code [of "splitFields t ! 0"]
  show ?thesis by simp
next
  case (Some m)
  with assms have "parseAnchored t (m_index m) = Inr (a, f)" by (simp add: segmentLine_def)
  from parseAnchored_apartment [OF this] toUpperCase_code [of "take (m_index m) t"]
  show ?thesis by (simp del: take_take)
qed

lemma parseLine_Inr:
  assumes "parseLine t = Inr x"
  obtains a f where "segmentLine t = Inr (a, f)" and "parseCarrierTracking a f = Inr x"
  using assms by (auto simp: parseLine_def split: sum.splits)

lemma parseLine_apartment:
  assumes "parseLine t = Inr x"
  shows "isApartmentCode (x_apartment x)"
proof -
  from assms obtain a f where "segmentLine t = Inr (a, f)" "parseCarrierTracking a f = Inr x"
    by (rule parseLine_Inr)
  with segmentLine_apartment parseCarrierTracking_apartment show ?thesis by metis
qed

subsection \<open>The callback\<close>

lemma parseCallback_blank:
  "trim line = [] \<Longrightarrow> parseCallback uuidv4 now st (line, i) = st"
  by (simp add: parseCallback_def)

lemma parseCallback_error:
  "trim line \<noteq> [] \<Longrightarrow> parseLine (trim line) = Inl reason \<Longrightarrow>
   parseCallback uuidv4 now st (line, i) =
     st\<lparr>ps_errors := ps_errors st @
       [\<lparr>e_lineNumber = i + 1, e_line = trim line, e_reason = reason\<rparr>]\<rparr>"
  by (simp add: parseCallback_def)

lemma parseCallback_duplicate:
  "trim line \<noteq> [] \<Longrightarrow> parseLine (trim line) = Inr x \<Longrightarrow>
   comboKey (x_apartment x) (x_trackingLast4 x) \<in> ps_seenCombos st \<Longrightarrow>
   parseCallback uuidv4 now st (line, i) =
     st\<lparr>ps_errors := ps_errors st @
       [\<lparr>e_lineNumber = i + 1, e_line = trim line,
         e_reason = ''Duplicate entry ('' @ x_apartment x @ '' + '' @
            x_trackingLast4 x @ '' already exists)''\<rparr>]\<rparr>"
  by (simp add: parseCallback_def)

lemma parseCallback_package:
  "trim line \<noteq> [] \<Longrightarrow> parseLine (trim line) = Inr x \<Longrightarrow>
   comboKey (x_apartment x) (x_trackingLast4 x) \<notin> ps_seenCombos st \<Longrightarrow>
   parseCallback uuidv4 now st (line, i) =
     st\<lparr>ps_seenCombos := insert (comboKey (x_apartment x) (x_trackingLast4 x)) (ps_seenCombos st),
        ps_packages := ps_packages st @
          [\<lparr>p_id = uuidv4 (length (ps_packages st)),
            p_apartment = x_apartment x,
            p_trackingLast4 = x_trackingLast4 x,
            p_carrier = x_carrier x,
            p_recipient = x_recipient x,
            p_fullTracking = x_fullTracking x,
            p_importedAt = now (length (ps_packages st)),
            p_status = Pending\<rparr>]\<rparr>"
  by (simp add: parseCallback_def Let_def)

lemma parseCallback_cases [case_names Blank Error Duplicate Package]:
  obtains
    (Blank) "trim line = []" "parseCallback ids now st (line, i) = st"
  | (Error) reason where "trim line \<noteq> []" "parseLine (trim line) = Inl reason"
      "parseCallback ids now st (line, i) =
         st\<lparr>ps_errors := ps_errors st @
           [\<lparr>e_lineNumber = i + 1, e_line = trim line, e_reason = reason\<rparr>]\<rparr>"
  | (Duplicate) x where "trim line \<noteq> []" "parseLine (trim line) = Inr x"
      "comboKey (x_apartment x) (x_trackingLast4 x) \<in> ps_seenCombos st"
      "parseCallback ids now st (line, i) =
         st\<lparr>ps_errors := ps_errors st @
           [\<lparr>e_lineNumber = i + 1, e_line = trim line,
             e_reason = ''Duplicate entry ('' @ x_apartment x @ '' + '' @
                x_trackingLast4 x @ '' already exists)''\<rparr>]\<rparr>"
  | (Package) x where "trim line \<noteq> []" "parseLine (trim line) = Inr x"
      "comboKey (x_apartment x) (x_trackingLast4 x) \<notin> ps_seenCombos st"
      "parseCallback ids now st (line, i) =
         st\<lparr>ps_seenCombos := insert (comboKey (x_apartment x) (x_trackingLast4 x)) (ps_seenCombos st),
            ps_packages := ps_packages st @
              [\<lparr>p_id = ids (length (ps_packages st)),
                p_apartment = x_apartment x,
                p_trackingLast4 = x_trackingLast4 x,
                p_carrier = x_carrier x,
                p_recipient = x_recipient x,
                p_fullTracking = x_fullTracking x,
                p_importedAt = now (length (ps_packages st)),
                p_status = Pending\<rparr>]\<rparr>"
proof (cases "trim line = []")
  case True
  then show ?thesis using Blank parseCallback_blank by blast
next
  case nonblank: False
  show ?thesis
  proof (cases "parseLine (trim line)")
    case (Inl reason)
    with nonblank show ?thesis using Error parseCallback_error by blast
  next
    case (Inr x)
    show ?thesis
    proof (cases "comboKey (x_apartment x) (x_trackingLast4 x) \<in> ps_seenCombos st")
      case True
      with nonblank Inr show ?thesis using Duplicate parseCallback_duplicate by blast
    next
      case False
      with nonblank Inr show ?thesis using Package parseCallback_package by blast
    qed
  qed
qed

subsection \<open>All lines\<close>

lemma parseLines_Nil:
  "parseLines uuidv4 now [] = \<lparr>ps_packages = [], ps_errors = [], ps_seenCombos = {}\<rparr>"
  by (simp add: parseLines_def)

lemma parseLines_snoc:
  "parseLines uuidv4 now (ls @ [l]) =
     parseCallback uuidv4 now (parseLines uuidv4 now ls) (l, length ls)"
  by (simp add: parseLines_def)

lemma comboKey_inject:
  assumes "comboKey a l = comboKey a' l'" and "length a = length a'"
  shows "a = a' \<and> l = l'"
  using assms by (simp add: comboKey_def)

lemma parseLines_packages:
  "p \<in> set (ps_packages (parseLines uuidv4 now ls)) \<Longrightarrow>
     isApartmentCode (p_apartment p) \<and> p_status p = Pending"
proof (induction ls arbitrary: p rule: rev_induct)
  case Nil
  then show ?case by (simp add: parseLines_Nil)
next
  case (snoc l ls)
  show ?case
  proof (cases rule: parseCallback_cases [where line = l and ids = uuidv4 and now = now and st = "parseLines uuidv4 now ls" and i = "length ls"])
    case Blank
    with snoc show ?thesis by (simp add: parseLines_snoc)
  next
    case (Error reason)
    with snoc show ?thesis by (simp add: parseLines_snoc)
  next
    case (Duplicate x)
    with snoc show ?thesis by (simp add: parseLines_snoc)
  next
    case (Package x)
    with snoc.prems have "p \<in> set (ps_packages (parseLines uuidv4 now ls)) \<or>
        p_apartment p = x_apartment x \<and> p_status p = Pending"
      by (auto simp: parseLines_snoc)
    with snoc.IH parseLine_apartment [OF Package(2)] show ?thesis by auto
  qed
qed

lemma parseLines_seen:
  "ps_seenCombos (parseLines uuidv4 now ls) =
     packageKey ` set (ps_packages (parseLines uuidv4 now ls))"
proof (induction ls rule: rev_induct)
  case Nil
  then show ?case by (simp add: parseLines_Nil)
next
  case (snoc l ls)
  show ?case
    by (cases rule: parseCallback_cases [where line = l and ids = uuidv4 and now = now and st = "parseLines uuidv4 now ls" and i = "length ls"])
       (simp_all add: parseLines_snoc snoc.IH packageKey_def)
qed

lemma parseLines_distinct:
  "distinct (map packageKey (ps_packages (parseLines uuidv4 now ls)))"
proof (induction ls rule: rev_induct)
  case Nil
  then show ?case by (simp add: parseLines_Nil)
next
  case (snoc l ls)
  show ?case
  proof (cases rule: parseCallback_cases [where line = l and ids = uuidv4 and now = now and st = "parseLines uuidv4 now ls" and i = "length ls"])
    case (Package x)
    from Package(3) have "comboKey (x_apartment x) (x_trackingLast4 x) \<notin>
        packageKey ` set (ps_packages (parseLines uuidv4 now ls))"
      by (simp add: parseLines_seen)
    with Package(4) snoc.IH show ?thesis
      by (simp add: parseLines_snoc packageKey_def)
  qed (simp_all add: parseLines_snoc snoc.IH)
qed

lemma parseLines_count:
  "length (ps_packages (parseLines uuidv4 now ls)) + length (ps_errors (parseLines uuidv4 now ls)) =
     length (filter (\<lambda>l. trim l \<noteq> []) ls)"
proof (induction ls rule: rev_induct)
  case Nil
  then show ?case by (simp add: parseLines_Nil)
next
  case (snoc l ls)
  show ?case
    by (cases rule: parseCallback_cases [where line = l and ids = uuidv4 and now = now and st = "parseLines uuidv4 now ls" and i = "length ls"])
       (simp_all add: parseLines_snoc snoc.IH)
qed

lemma parseLines_errors:
  "e \<in> set (ps_errors (parseLines uuidv4 now ls)) \<Longrightarrow>
     1 \<le> e_lineNumber e \<and> e_lineNumber e \<le> length ls \<and>
     e_line e = trim (ls ! (e_lineNumber e - 1)) \<and> e_line e \<noteq> []"
proof (induction ls arbitrary: e rule: rev_induct)
  case Nil
  then show ?case by (simp add: parseLines_Nil)
next
  case (snoc l ls)
  have old: "1 \<le> e_lineNumber e \<and> e_lineNumber e \<le> length (ls @ [l]) \<and>
     e_line e = trim ((ls @ [l]) ! (e_lineNumber e - 1)) \<and> e_line e \<noteq> []"
    if "e \<in> set (ps_errors (parseLines uuidv4 now ls))"
  proof -
    from snoc.IH [OF that] have ih: "1 \<le> e_lineNumber e" "e_lineNumber e \<le> length ls"
      "e_line e = trim (ls ! (e_lineNumber e - 1))" "e_line e \<noteq> []" by blast+
    from ih(1,2) have "e_lineNumber e - 1 < length ls" by arith
    then have "(ls @ [l]) ! (e_lineNumber e - 1) = ls ! (e_lineNumber e - 1)"
      by (simp only: nth_append if_True)
    with ih show ?thesis by (simp del: One_nat_def)
  qed
  show ?case
  proof (cases rule: parseCallback_cases [where line = l and ids = uuidv4 and now = now and st = "parseLines uuidv4 now ls" and i = "length ls"])
    case Blank
    with snoc.prems have "e \<in> set (ps_errors (parseLines uuidv4 now ls))"
      by (simp add: parseLines_snoc)
    then show ?thesis by (rule old)
  next
    case (Error reason)
    with snoc.prems consider "e \<in> set (ps_errors (parseLines uuidv4 now ls))"
      | "e = \<lparr>e_lineNumber = length ls + 1, e_line = trim l, e_reason = reason\<rparr>"
      by (auto simp: parseLines_snoc)
    then show ?thesis
    proof cases
      case 1
      then show ?thesis by (rule old)
    next
      case 2
      with Error(1) show ?thesis by simp
    qed
  next
    case (Duplicate x)
    with snoc.prems consider "e \<in> set (ps_errors (parseLines uuidv4 now ls))"
      | "e_lineNumber e = length ls + 1 \<and> e_line e = trim l"
      by (auto simp: parseLines_snoc)
    then show ?thesis
    proof cases
      case 1
      then show ?thesis by (rule old)
    next
      case 2
      with Duplicate(1) show ?thesis by simp
    qed
  next
    case (Package x)
    with snoc.prems have "e \<in> set (ps_errors (parseLines uuidv4 now ls))"
      by (simp add: parseLines_snoc)
    then show ?thesis by (rule old)
  qed
qed

lemma parseLines_errors_sorted:
  "sorted_wrt (<) (map e_lineNumber (ps_errors (parseLines uuidv4 now ls)))"
proof (induction ls rule: rev_induct)
  case Nil
  then show ?case by (simp add: parseLines_Nil)
next
  case (snoc l ls)
  have below: "\<forall>n \<in> set (map e_lineNumber (ps_errors (parseLines uuidv4 now ls))). n < length ls + 1"
    using parseLines_errors [of _ uuidv4 now ls] by fastforce
  show ?case
    by (cases rule: parseCallback_cases [where line = l and ids = uuidv4 and now = now and st = "parseLines uuidv4 now ls" and i = "length ls"])
       (use snoc.IH below in \<open>simp_all add: parseLines_snoc sorted_wrt_append\<close>)
qed

lemma parseLines_prefix:
  "\<exists>ps es. ps_packages (parseLines uuidv4 now (xs @ ys)) = ps_packages (parseLines uuidv4 now xs) @ ps \<and>
     ps_errors (parseLines uuidv4 now (xs @ ys)) = ps_errors (parseLines uuidv4 now xs) @ es"
proof (induction ys rule: rev_induct)
  case Nil
  then show ?case by simp
next
  case (snoc l ys)
  then obtain ps es where ih:
    "ps_packages (parseLines uuidv4 now (xs @ ys)) = ps_packages (parseLines uuidv4 now xs) @ ps"
    "ps_errors (parseLines uuidv4 now (xs @ ys)) = ps_errors (parseLines uuidv4 now xs) @ es"
    by blast
  have step: "parseLines uuidv4 now (xs @ ys @ [l]) =
      parseCallback uuidv4 now (parseLines uuidv4 now (xs @ ys)) (l, length (xs @ ys))"
    using parseLines_snoc [of uuidv4 now "xs @ ys" l] by simp
  show ?case
    by (cases rule: parseCallback_cases [where line = l and ids = uuidv4 and now = now and st = "parseLines uuidv4 now (xs @ ys)" and i = "length (xs @ ys)"])
       (simp_all add: step ih)
qed

lemma parseLines_seen_mono:
  "ps_seenCombos (parseLines uuidv4 now xs) \<subseteq> ps_seenCombos (parseLines uuidv4 now (xs @ ys))"
proof -
  obtain ps es where
    "ps_packages (parseLines uuidv4 now (xs @ ys)) = ps_packages (parseLines uuidv4 now xs) @ ps"
    using parseLines_prefix [of uuidv4 now xs ys] by blast
  then show ?thesis by (auto simp: parseLines_seen)
qed

lemma parseLines_seen_after:
  assumes "i < length ls" and "trim (ls ! i) \<noteq> []" and "parseLine (trim (ls ! i)) = Inr x"
  shows "comboKey (x_apartment x) (x_trackingLast4 x) \<in>
           ps_seenCombos (parseLines uuidv4 now (take (Suc i) ls))"
proof -
  have tk: "take (Suc i) ls = take i ls @ [ls ! i]"
    using assms(1) by (rule take_Suc_conv_app_nth)
  show ?thesis
    by (cases rule: parseCallback_cases [where line = "ls ! i" and ids = uuidv4 and now = now
          and st = "parseLines uuidv4 now (take i ls)" and i = "length (take i ls)"])
       (use assms in \<open>auto simp: tk parseLines_snoc\<close>)
qed

lemma parseLines_duplicate_error:
  assumes "j < i" and "i < length ls"
    and "trim (ls ! j) \<noteq> []" and "parseLine (trim (ls ! j)) = Inr y"
    and "trim (ls ! i) \<noteq> []" and "parseLine (trim (ls ! i)) = Inr x"
    and "x_apartment y = x_apartment x" and "x_trackingLast4 y = x_trackingLast4 x"
  shows "\<lparr>e_lineNumber = i + 1, e_line = trim (ls ! i),
           e_reason = ''Duplicate entry ('' @ x_apartment x @ '' + '' @
              x_trackingLast4 x @ '' already exists)''\<rparr>
         \<in> set (ps_errors (parseLines uuidv4 now ls))"
proof -
  from assms(1,2) have j: "j < length ls" by simp
  have "comboKey (x_apartment y) (x_trackingLast4 y) \<in>
      ps_seenCombos (parseLines uuidv4 now (take (Suc j) ls))"
    using j assms(3,4) by (rule parseLines_seen_after)
  moreover have "take i ls = take (Suc j) ls @ drop (Suc j) (take i ls)"
    using assms(1) by (metis Suc_leI append_take_drop_id min.absorb2 take_take min.commute)
  ultimately have seen: "comboKey (x_apartment x) (x_trackingLast4 x) \<in>
      ps_seenCombos (parseLines uuidv4 now (take i ls))"
    using parseLines_seen_mono [of uuidv4 now "take (Suc j) ls" "drop (Suc j) (take i ls)"] assms(7,8)
    by auto
  have tk: "take (Suc i) ls = take i ls @ [ls ! i]"
    using assms(2) by (rule take_Suc_conv_app_nth)
  have len: "length (take i ls) = i" using assms(2) by simp
  have "parseLines uuidv4 now (take (Suc i) ls) =
      (parseLines uuidv4 now (take i ls))
        \<lparr>ps_errors := ps_errors (parseLines uuidv4 now (take i ls)) @
          [\<lparr>e_lineNumber = i + 1, e_line = trim (ls ! i),
            e_reason = ''Duplicate entry ('' @ x_apartment x @ '' + '' @
              x_trackingLast4 x @ '' already exists)''\<rparr>]\<rparr>"
    unfolding tk parseLines_snoc len
    using assms(5,6) seen by (rule parseCallback_duplicate)
  then have here: "\<lparr>e_lineNumber = i + 1, e_line = trim (ls ! i),
            e_reason = ''Duplicate entry ('' @ x_apartment x @ '' + '' @
              x_trackingLast4 x @ '' already exists)''\<rparr>
      \<in> set (ps_errors (parseLines uuidv4 now (take (Suc i) ls)))"
    by simp
  obtain ps es where "ps_errors (parseLines uuidv4 now (take (Suc i) ls @ drop (Suc i) ls)) =
      ps_errors (parseLines uuidv4 now (take (Suc i) ls)) @ es"
    using parseLines_prefix [of uuidv4 now "take (Suc i) ls" "drop (Suc i) ls"] by blast
  with here show ?thesis by simp
qed

lemma parseLines_first_stands:
  assumes "i < length ls" and "trim (ls ! i) \<noteq> []" and "parseLine (trim (ls ! i)) = Inr x"
  shows "\<exists>p \<in> set (ps_packages (parseLines uuidv4 now ls)).
           p_apartment p = x_apartment x \<and> p_trackingLast4 p = x_trackingLast4 x"
proof -
  have "comboKey (x_apartment x) (x_trackingLast4 x) \<in>
      ps_seenCombos (parseLines uuidv4 now (take (Suc i) ls))"
    using assms by (rule parseLines_seen_after)
  with parseLines_seen_mono [of uuidv4 now "take (Suc i) ls" "drop (Suc i) ls"]
  have "comboKey (x_apartment x) (x_trackingLast4 x) \<in> ps_seenCombos (parseLines uuidv4 now ls)"
    by auto
  then obtain p where p: "p \<in> set (ps_packages (parseLines uuidv4 now ls))"
    "packageKey p = comboKey (x_apartment x) (x_trackingLast4 x)"
    by (auto simp: parseLines_seen)
  from parseLines_packages [OF p(1)] parseLine_apartment [OF assms(3)]
  have "length (p_apartment p) = length (x_apartment x)"
    by (simp add: isApartmentCode_def)
  with p(2) have "p_apartment p = x_apartment x \<and> p_trackingLast4 p = x_trackingLast4 x"
    unfolding packageKey_def by (rule comboKey_inject)
  with p(1) show ?thesis by blast
qed

lemma parseLines_distinct_pairs:
  "distinct (map (\<lambda>p. (p_apartment p, p_trackingLast4 p)) (ps_packages (parseLines uuidv4 now ls)))"
proof -
  have "distinct (map (\<lambda>p. comboKey (fst p) (snd p))
      (map (\<lambda>p. (p_apartment p, p_trackingLast4 p)) (ps_packages (parseLines uuidv4 now ls))))"
  proof -
    have "packageKey = (\<lambda>p. comboKey (p_apartment p) (p_trackingLast4 p))"
      by (rule ext) (simp add: packageKey_def)
    with parseLines_distinct [of uuidv4 now ls] show ?thesis by (simp add: comp_def)
  qed
  then show ?thesis by (simp only: distinct_map [of "\<lambda>p. comboKey (fst p) (snd p)"])
qed

subsection \<open>The reasons of the errors\<close>

lemma parseCarrierTracking_reason:
  "parseCarrierTracking a f = Inl r \<Longrightarrow> r \<noteq> [] \<and> take 3 r \<noteq> ''Ins''"
  by (auto simp: parseCarrierTracking_def Let_def split: if_splits)

lemma parseAnchored_reason:
  "parseAnchored t i = Inl r \<Longrightarrow> r \<noteq> [] \<and> take 3 r \<noteq> ''Ins''"
  by (auto simp: parseAnchored_def Let_def split: if_splits option.splits)

lemma parseFields_reason:
  "parseFields t = Inl r \<Longrightarrow> r \<noteq> []"
  by (auto simp: parseFields_def insufficientFields_def Let_def split: if_splits option.splits)

lemma segmentLine_reason:
  "segmentLine t = Inl r \<Longrightarrow> r \<noteq> []"
  by (auto simp: segmentLine_def split: option.splits dest: parseAnchored_reason parseFields_reason)

lemma parseLine_reason:
  "parseLine t = Inl r \<Longrightarrow> r \<noteq> []"
  by (auto simp: parseLine_def split: sum.splits
      dest: segmentLine_reason parseCarrierTracking_reason)

lemma parseLines_reasons:
  "e \<in> set (ps_errors (parseLines uuidv4 now ls)) \<Longrightarrow> e_reason e \<noteq> []"
proof (induction ls arbitrary: e rule: rev_induct)
  case Nil
  then show ?case by (simp add: parseLines_Nil)
next
  case (snoc l ls)
  show ?case
  proof (cases rule: parseCallback_cases [where line = l and ids = uuidv4 and now = now
          and st = "parseLines uuidv4 now ls" and i = "length ls"])
    case Blank
    with snoc show ?thesis by (simp add: parseLines_snoc)
  next
    case (Error reason)
    with snoc parseLine_reason [OF Error(2)] show ?thesis by (auto simp: parseLines_snoc)
  next
    case (Duplicate x)
    with snoc show ?thesis by (auto simp: parseLines_snoc)
  next
    case (Package x)
    with snoc show ?thesis by (simp add: parseLines_snoc)
  qed
qed

subsection \<open>Lines with the anchor\<close>



subsection \<open>The keys of the packages\<close>

lemma sliceLast4_nonempty:
  "4 \<le> length s \<Longrightarrow> sliceLast4 s \<noteq> []"
  by (simp add: sliceLast4_def)

lemma parseCarrierTracking_last4:
  "parseCarrierTracking a f = Inr x \<Longrightarrow> x_trackingLast4 x \<noteq> []"
  by (auto simp: parseCarrierTracking_def Let_def sliceLast4_nonempty split: if_splits)

lemma parseLine_last4:
  assumes "parseLine t = Inr x"
  shows "x_trackingLast4 x \<noteq> []"
proof -
  from assms obtain a f where "parseCarrierTracking a f = Inr x"
    by (rule parseLine_Inr)
  then show ?thesis by (rule parseCarrierTracking_last4)
qed

lemma isApartmentCode_nonempty:
  "isApartmentCode a \<Longrightarrow> a \<noteq> []"
  by (auto simp: isApartmentCode_def)

lemma parseLines_last4:
  "p \<in> set (ps_packages (parseLines uuidv4 now ls)) \<Longrightarrow> p_trackingLast4 p \<noteq> []"
proof (induction ls arbitrary: p rule: rev_induct)
  case Nil
  then show ?case by (simp add: parseLines_Nil)
next
  case (snoc l ls)
  show ?case
  proof (cases rule: parseCallback_cases [where line = l and ids = uuidv4 and now = now and st = "parseLines uuidv4 now ls" and i = "length ls"])
    case Blank
    with snoc show ?thesis by (simp add: parseLines_snoc)
  next
    case (Error reason)
    with snoc show ?thesis by (simp add: parseLines_snoc)
  next
    case (Duplicate x)
    with snoc show ?thesis by (simp add: parseLines_snoc)
  next
    case (Package x)
    with snoc.prems have "p \<in> set (ps_packages (parseLines uuidv4 now ls)) \<or>
        p_trackingLast4 p = x_trackingLast4 x"
      by (auto simp: parseLines_snoc)
    with snoc.IH parseLine_last4 [OF Package(2)] show ?thesis by auto
  qed
qed

text \<open>
  Every package of an import has an apartment and a \<^verbatim>\<open>trackingLast4\<close> that are
  not empty.
\<close>

lemma parsePackageList_keys:
  "\<forall>p \<in> set (fst (parsePackageList uuidv4 now rawText)).
     p_apartment p \<noteq> [] \<and> p_trackingLast4 p \<noteq> []"
  using parseLines_packages [of _ uuidv4 now "split [CHR 0x0A] rawText"]
    parseLines_last4 [of _ uuidv4 now "split [CHR 0x0A] rawText"]
  by (auto simp: parsePackageList_def Let_def dest: isApartmentCode_nonempty)

subsection \<open>The callback with the catch clause\<close>

lemma catchReason_nonempty:
  "catchReason e \<noteq> []"
  by (cases e) simp_all

lemma parseCallbackCatch_blank:
  "trim line = [] \<Longrightarrow> parseCallbackCatch ids clock st (line, i) = st"
  by (simp add: parseCallbackCatch_def)

lemma parseCallbackCatch_error:
  "trim line \<noteq> [] \<Longrightarrow> parseLine (trim line) = Inl reason \<Longrightarrow>
   parseCallbackCatch ids clock st (line, i) =
     st\<lparr>ps_errors := ps_errors st @
       [\<lparr>e_lineNumber = i + 1, e_line = trim line, e_reason = reason\<rparr>]\<rparr>"
  by (simp add: parseCallbackCatch_def)

lemma parseCallbackCatch_duplicate:
  "trim line \<noteq> [] \<Longrightarrow> parseLine (trim line) = Inr x \<Longrightarrow>
   comboKey (x_apartment x) (x_trackingLast4 x) \<in> ps_seenCombos st \<Longrightarrow>
   parseCallbackCatch ids clock st (line, i) =
     st\<lparr>ps_errors := ps_errors st @
       [\<lparr>e_lineNumber = i + 1, e_line = trim line,
         e_reason = ''Duplicate entry ('' @ x_apartment x @ '' + '' @
            x_trackingLast4 x @ '' already exists)''\<rparr>]\<rparr>"
  by (simp add: parseCallbackCatch_def)

text \<open>
  A call that throws: the error of the line is pushed, and the key that line 207 added
  stays in \<^verbatim>\<open>seenCombos\<close>.
\<close>

lemma parseCallbackCatch_thrown:
  "trim line \<noteq> [] \<Longrightarrow> parseLine (trim line) = Inr x \<Longrightarrow>
   comboKey (x_apartment x) (x_trackingLast4 x) \<notin> ps_seenCombos st \<Longrightarrow>
   ids i = Inl e \<or> (\<exists>v. ids i = Inr v \<and> clock i = Inl e) \<Longrightarrow>
   parseCallbackCatch ids clock st (line, i) =
     st\<lparr>ps_seenCombos := insert (comboKey (x_apartment x) (x_trackingLast4 x)) (ps_seenCombos st),
        ps_errors := ps_errors st @
          [\<lparr>e_lineNumber = i + 1, e_line = trim line, e_reason = catchReason e\<rparr>]\<rparr>"
  by (auto simp: parseCallbackCatch_def Let_def)

lemma parseCallbackCatch_package:
  "trim line \<noteq> [] \<Longrightarrow> parseLine (trim line) = Inr x \<Longrightarrow>
   comboKey (x_apartment x) (x_trackingLast4 x) \<notin> ps_seenCombos st \<Longrightarrow>
   ids i = Inr v \<Longrightarrow> clock i = Inr t \<Longrightarrow>
   parseCallbackCatch ids clock st (line, i) =
     st\<lparr>ps_seenCombos := insert (comboKey (x_apartment x) (x_trackingLast4 x)) (ps_seenCombos st),
        ps_packages := ps_packages st @
          [\<lparr>p_id = v,
            p_apartment = x_apartment x,
            p_trackingLast4 = x_trackingLast4 x,
            p_carrier = x_carrier x,
            p_recipient = x_recipient x,
            p_fullTracking = x_fullTracking x,
            p_importedAt = t,
            p_status = Pending\<rparr>]\<rparr>"
  by (simp add: parseCallbackCatch_def Let_def)

text \<open>
  When both calls return, the callback with the catch clause is the callback of the
  runs without exceptions.
\<close>

lemma parseCallback_generators:
  "parseCallback uuidv4 now st (line, i) =
     parseCallback (\<lambda>k. uuidv4 (length (ps_packages st))) (\<lambda>k. now (length (ps_packages st)))
       st (line, i)"
  by (simp add: parseCallback_def)

lemma parseCallbackCatch_returns:
  "ids i = Inr v \<Longrightarrow> clock i = Inr t \<Longrightarrow>
   parseCallbackCatch ids clock st (line, i) = parseCallback (\<lambda>k. v) (\<lambda>k. t) st (line, i)"
  by (simp add: parseCallbackCatch_def parseCallback_def Let_def split: sum.splits)

text \<open>
  The shape of a step: a line that is not blank adds one package or one error with its
  number and its trimmed text, and changes nothing else but \<^verbatim>\<open>seenCombos\<close>.
\<close>

lemma parseCallbackCatch_cases [case_names Blank Package Error]:
  obtains
    (Blank) "trim line = []" "parseCallbackCatch ids clock st (line, i) = st"
  | (Package) p seen where "trim line \<noteq> []"
      "parseCallbackCatch ids clock st (line, i) =
         st\<lparr>ps_seenCombos := seen, ps_packages := ps_packages st @ [p]\<rparr>"
  | (Error) r seen where "trim line \<noteq> []" "r \<noteq> []"
      "parseCallbackCatch ids clock st (line, i) =
         st\<lparr>ps_seenCombos := seen, ps_errors := ps_errors st @
           [\<lparr>e_lineNumber = i + 1, e_line = trim line, e_reason = r\<rparr>]\<rparr>"
proof (cases "trim line = []")
  case True
  then show ?thesis using Blank parseCallbackCatch_blank by blast
next
  case nonblank: False
  show ?thesis
  proof (cases "parseLine (trim line)")
    case (Inl reason)
    from parseLine_reason [OF Inl] have "reason \<noteq> []" .
    moreover from parseCallbackCatch_error [OF nonblank Inl]
    have "parseCallbackCatch ids clock st (line, i) =
         st\<lparr>ps_seenCombos := ps_seenCombos st, ps_errors := ps_errors st @
           [\<lparr>e_lineNumber = i + 1, e_line = trim line, e_reason = reason\<rparr>]\<rparr>"
      by simp
    ultimately show ?thesis using nonblank Error by blast
  next
    case (Inr x)
    show ?thesis
    proof (cases "comboKey (x_apartment x) (x_trackingLast4 x) \<in> ps_seenCombos st")
      case True
      have "''Duplicate entry ('' @ x_apartment x @ '' + '' @ x_trackingLast4 x @
          '' already exists)'' \<noteq> []"
        by simp
      moreover from parseCallbackCatch_duplicate [OF nonblank Inr True]
      have "parseCallbackCatch ids clock st (line, i) =
         st\<lparr>ps_seenCombos := ps_seenCombos st, ps_errors := ps_errors st @
           [\<lparr>e_lineNumber = i + 1, e_line = trim line,
             e_reason = ''Duplicate entry ('' @ x_apartment x @ '' + '' @
                x_trackingLast4 x @ '' already exists)''\<rparr>]\<rparr>"
        by simp
      ultimately show ?thesis using nonblank Error by blast
    next
      case unseen: False
      show ?thesis
      proof (cases "ids i")
        case (Inl e)
        with parseCallbackCatch_thrown [OF nonblank Inr unseen, of ids i e clock]
          catchReason_nonempty [of e] nonblank Error
        show ?thesis by blast
      next
        case v: (Inr v)
        show ?thesis
        proof (cases "clock i")
          case (Inl e)
          with v parseCallbackCatch_thrown [OF nonblank Inr unseen, of ids i e clock]
            catchReason_nonempty [of e] nonblank Error
          show ?thesis by blast
        next
          case (Inr t)
          with v nonblank unseen \<open>parseLine (trim line) = Inr x\<close>
            parseCallbackCatch_package [where line = line and x = x and st = st and ids = ids
              and i = i and v = v and clock = clock and t = t]
          have "parseCallbackCatch ids clock st (line, i) =
              st\<lparr>ps_seenCombos := insert (comboKey (x_apartment x) (x_trackingLast4 x)) (ps_seenCombos st),
                 ps_packages := ps_packages st @
                   [\<lparr>p_id = v,
                     p_apartment = x_apartment x,
                     p_trackingLast4 = x_trackingLast4 x,
                     p_carrier = x_carrier x,
                     p_recipient = x_recipient x,
                     p_fullTracking = x_fullTracking x,
                     p_importedAt = t,
                     p_status = Pending\<rparr>]\<rparr>"
            by blast
          with nonblank Package show ?thesis by blast
        qed
      qed
    qed
  qed
qed

lemma parseLinesCatch_Nil:
  "parseLinesCatch ids clock [] = \<lparr>ps_packages = [], ps_errors = [], ps_seenCombos = {}\<rparr>"
  by (simp add: parseLinesCatch_def)

lemma parseLinesCatch_snoc:
  "parseLinesCatch ids clock (ls @ [l]) =
     parseCallbackCatch ids clock (parseLinesCatch ids clock ls) (l, length ls)"
  by (simp add: parseLinesCatch_def)

lemma parseLinesCatch_count:
  "length (ps_packages (parseLinesCatch ids clock ls)) +
     length (ps_errors (parseLinesCatch ids clock ls)) =
   length (filter (\<lambda>l. trim l \<noteq> []) ls)"
proof (induction ls rule: rev_induct)
  case Nil
  then show ?case by (simp add: parseLinesCatch_Nil)
next
  case (snoc l ls)
  show ?case
    by (cases rule: parseCallbackCatch_cases [where line = l and ids = ids and clock = clock
          and st = "parseLinesCatch ids clock ls" and i = "length ls"])
       (simp_all add: parseLinesCatch_snoc snoc.IH)
qed

lemma parseLinesCatch_errors:
  "e \<in> set (ps_errors (parseLinesCatch ids clock ls)) \<Longrightarrow>
     1 \<le> e_lineNumber e \<and> e_lineNumber e \<le> length ls \<and>
     e_line e = trim (ls ! (e_lineNumber e - 1)) \<and> e_line e \<noteq> [] \<and> e_reason e \<noteq> []"
proof (induction ls arbitrary: e rule: rev_induct)
  case Nil
  then show ?case by (simp add: parseLinesCatch_Nil)
next
  case (snoc l ls)
  have old: "1 \<le> e_lineNumber e \<and> e_lineNumber e \<le> length (ls @ [l]) \<and>
     e_line e = trim ((ls @ [l]) ! (e_lineNumber e - 1)) \<and> e_line e \<noteq> [] \<and> e_reason e \<noteq> []"
    if "e \<in> set (ps_errors (parseLinesCatch ids clock ls))"
  proof -
    from snoc.IH [OF that] have ih: "1 \<le> e_lineNumber e" "e_lineNumber e \<le> length ls"
      "e_line e = trim (ls ! (e_lineNumber e - 1))" "e_line e \<noteq> []" "e_reason e \<noteq> []"
      by blast+
    from ih(1,2) have "e_lineNumber e - 1 < length ls" by arith
    then have "(ls @ [l]) ! (e_lineNumber e - 1) = ls ! (e_lineNumber e - 1)"
      by (simp only: nth_append if_True)
    with ih show ?thesis by (simp del: One_nat_def)
  qed
  show ?case
  proof (cases rule: parseCallbackCatch_cases [where line = l and ids = ids and clock = clock
          and st = "parseLinesCatch ids clock ls" and i = "length ls"])
    case Blank
    with snoc.prems have "e \<in> set (ps_errors (parseLinesCatch ids clock ls))"
      by (simp add: parseLinesCatch_snoc)
    then show ?thesis by (rule old)
  next
    case (Package p seen)
    with snoc.prems have "e \<in> set (ps_errors (parseLinesCatch ids clock ls))"
      by (simp add: parseLinesCatch_snoc)
    then show ?thesis by (rule old)
  next
    case (Error r seen)
    with snoc.prems consider "e \<in> set (ps_errors (parseLinesCatch ids clock ls))"
      | "e = \<lparr>e_lineNumber = length ls + 1, e_line = trim l, e_reason = r\<rparr>"
      by (auto simp: parseLinesCatch_snoc)
    then show ?thesis
    proof cases
      case 1
      then show ?thesis by (rule old)
    next
      case 2
      with Error(1,2) show ?thesis by simp
    qed
  qed
qed

lemma parseLinesCatch_errors_sorted:
  "sorted_wrt (<) (map e_lineNumber (ps_errors (parseLinesCatch ids clock ls)))"
proof (induction ls rule: rev_induct)
  case Nil
  then show ?case by (simp add: parseLinesCatch_Nil)
next
  case (snoc l ls)
  have below: "\<forall>n \<in> set (map e_lineNumber (ps_errors (parseLinesCatch ids clock ls))).
      n < length ls + 1"
    using parseLinesCatch_errors [of _ ids clock ls] by fastforce
  show ?case
    by (cases rule: parseCallbackCatch_cases [where line = l and ids = ids and clock = clock
          and st = "parseLinesCatch ids clock ls" and i = "length ls"])
       (use snoc.IH below in \<open>simp_all add: parseLinesCatch_snoc sorted_wrt_append\<close>)
qed

text \<open>
  A run without exceptions is a run of the callback with the catch clause in which
  every call returns.
\<close>

lemma parseLinesCatch_returning:
  assumes "\<forall>i<length ls.
      ids i = Inr (uuidv4 (length (ps_packages (parseLines uuidv4 now (take i ls))))) \<and>
      clock i = Inr (now (length (ps_packages (parseLines uuidv4 now (take i ls)))))"
  shows "parseLinesCatch ids clock ls = parseLines uuidv4 now ls"
proof -
  have "k \<le> length ls \<Longrightarrow>
      parseLinesCatch ids clock (take k ls) = parseLines uuidv4 now (take k ls)" for k
  proof (induction k)
    case 0
    show ?case by (simp add: parseLinesCatch_Nil parseLines_Nil)
  next
    case (Suc k)
    then have k: "k < length ls" by simp
    then have tk: "take (Suc k) ls = take k ls @ [ls ! k]"
      by (rule take_Suc_conv_app_nth)
    from Suc have ih: "parseLinesCatch ids clock (take k ls) = parseLines uuidv4 now (take k ls)"
      by simp
    from assms k have gen:
      "ids k = Inr (uuidv4 (length (ps_packages (parseLines uuidv4 now (take k ls)))))"
      "clock k = Inr (now (length (ps_packages (parseLines uuidv4 now (take k ls)))))"
      by simp_all
    have "parseLinesCatch ids clock (take (Suc k) ls) =
        parseCallbackCatch ids clock (parseLines uuidv4 now (take k ls)) (ls ! k, k)"
      using parseLinesCatch_snoc [of ids clock "take k ls" "ls ! k"] k
      by (simp add: tk ih min_def)
    also have "\<dots> = parseCallback uuidv4 now (parseLines uuidv4 now (take k ls)) (ls ! k, k)"
      using gen
        parseCallbackCatch_returns [where ids = ids and clock = clock and i = k
          and v = "uuidv4 (length (ps_packages (parseLines uuidv4 now (take k ls))))"
          and t = "now (length (ps_packages (parseLines uuidv4 now (take k ls))))"
          and st = "parseLines uuidv4 now (take k ls)" and line = "ls ! k"]
        parseCallback_generators [of uuidv4 now "parseLines uuidv4 now (take k ls)" "ls ! k" k]
      by simp
    also have "\<dots> = parseLines uuidv4 now (take (Suc k) ls)"
      using parseLines_snoc [of uuidv4 now "take k ls" "ls ! k"] k
      by (simp add: tk min_def)
    finally show ?case .
  qed
  from this [of "length ls"] show ?thesis by simp
qed

lemma parsePackageList_returning:
  "\<exists>ids clock. (\<forall>i. \<exists>v. ids i = Inr v) \<and> (\<forall>i. \<exists>t. clock i = Inr t) \<and>
     parsePackageListCatch ids clock rawText = parsePackageList uuidv4 now rawText"
proof -
  define ls where "ls = split [CHR 0x0A] rawText"
  define ids :: "nat \<Rightarrow> thrown + string" where
    "ids = (\<lambda>i. Inr (uuidv4 (length (ps_packages (parseLines uuidv4 now (take i ls))))))"
  define clock :: "nat \<Rightarrow> thrown + int" where
    "clock = (\<lambda>i. Inr (now (length (ps_packages (parseLines uuidv4 now (take i ls))))))"
  have "parseLinesCatch ids clock ls = parseLines uuidv4 now ls"
    by (rule parseLinesCatch_returning) (simp add: ids_def clock_def)
  then have "parsePackageListCatch ids clock rawText = parsePackageList uuidv4 now rawText"
    by (simp add: parsePackageListCatch_def parsePackageList_def ls_def)
  moreover have "\<forall>i. \<exists>v. ids i = Inr v" "\<forall>i. \<exists>t. clock i = Inr t"
    by (simp_all add: ids_def clock_def)
  ultimately show ?thesis by blast
qed

text \<open>
  \<^verbatim>\<open>parsePackageList\<close> with the catch clause, whatever the calls of
  \<^verbatim>\<open>uuidv4()\<close> and \<^verbatim>\<open>Date.now()\<close> do: the packages and the errors together are
  as many as the lines that are not blank; every error carries the number and the
  trimmed text of a line that is not blank, and a reason; the line numbers of the errors
  increase; a blank line leaves the state as it is, and any other line adds one package
  or one error.
\<close>

lemma parsePackageListCatch_covers_lines:
  assumes "parsePackageListCatch ids clock rawText = (pkgs, errs)"
  shows "length pkgs + length errs =
       length (filter (\<lambda>l. trim l \<noteq> []) (split [CHR 0x0A] rawText)) \<and>
     (\<forall>e \<in> set errs.
        1 \<le> e_lineNumber e \<and> e_lineNumber e \<le> length (split [CHR 0x0A] rawText) \<and>
        e_line e = trim (split [CHR 0x0A] rawText ! (e_lineNumber e - 1)) \<and>
        e_line e \<noteq> [] \<and> e_reason e \<noteq> []) \<and>
     sorted_wrt (<) (map e_lineNumber errs)"
proof -
  define ls where "ls = split [CHR 0x0A] rawText"
  from assms have out: "pkgs = ps_packages (parseLinesCatch ids clock ls)"
    "errs = ps_errors (parseLinesCatch ids clock ls)"
    by (simp_all add: parsePackageListCatch_def Let_def ls_def)
  have count: "length pkgs + length errs = length (filter (\<lambda>l. trim l \<noteq> []) ls)"
    unfolding out by (rule parseLinesCatch_count)
  have errors: "\<forall>e \<in> set errs.
        1 \<le> e_lineNumber e \<and> e_lineNumber e \<le> length ls \<and>
        e_line e = trim (ls ! (e_lineNumber e - 1)) \<and> e_line e \<noteq> [] \<and> e_reason e \<noteq> []"
    unfolding out using parseLinesCatch_errors [of _ ids clock ls] by blast
  have sorted: "sorted_wrt (<) (map e_lineNumber errs)"
    unfolding out by (rule parseLinesCatch_errors_sorted)
  from count errors sorted show ?thesis
    unfolding ls_def by blast
qed

section \<open>Claims about the matching algorithm\<close>

text \<open>
  The concrete inputs are the ones of the repository's tests: one pending package
  \<^verbatim>\<open>C01K:1234\<close> and detections that read that sticker.
\<close>

text \<open>
  Claim C1 (evaluation of the code at the failing input). One pending package
  \<^verbatim>\<open>C01K:1234\<close> and two detections of that sticker with different ids, both
  carrying the status \<^verbatim>\<open>matched\<close> they are created with. The batch run gives the
  second detection \<^verbatim>\<open>duplicate\<close>; \<^verbatim>\<open>rematchSingleDetection\<close> of the
  second detection gives it \<^verbatim>\<open>matched\<close>, although the set that lines 115-129
  build from the other detection holds its combo.
\<close>

theorem rematch_differs_from_batch:
  "d_status (snd (rematchSingleDetection [createPackage 0 ''C01K'' ''1234'' Pending]
       ((createDetection (Some ''C01K'') (Some ''1234'') ''photo-2'')\<lparr>d_id := ''det-2''\<rparr>)
       [createDetection (Some ''C01K'') (Some ''1234'') ''photo-1'',
        (createDetection (Some ''C01K'') (Some ''1234'') ''photo-2'')\<lparr>d_id := ''det-2''\<rparr>]))
     = Matched \<and>
   d_status (snd (matchDetections [createPackage 0 ''C01K'' ''1234'' Pending]
       [createDetection (Some ''C01K'') (Some ''1234'') ''photo-1'',
        (createDetection (Some ''C01K'') (Some ''1234'') ''photo-2'')\<lparr>d_id := ''det-2''\<rparr>]) ! 1)
     = Duplicate \<and>
   comboKey ''C01K'' ''1234'' \<in>
     fold (addOtherCombo ((createDetection (Some ''C01K'') (Some ''1234'') ''photo-2'')\<lparr>d_id := ''det-2''\<rparr>))
       [createDetection (Some ''C01K'') (Some ''1234'') ''photo-1'',
        (createDetection (Some ''C01K'') (Some ''1234'') ''photo-2'')\<lparr>d_id := ''det-2''\<rparr>]
       (foundCombos [createPackage 0 ''C01K'' ''1234'' Pending])"
  by code_simp

text \<open>
  Claim C2, as stated, fails: after the first call the package is \<^verbatim>\<open>found\<close>, so
  its combo seeds the claimed set of the second call and the detection the first call
  matched becomes \<^verbatim>\<open>duplicate\<close>.
\<close>

theorem matchDetections_second_call_counterexample:
  "map d_status (snd (matchDetections [createPackage 0 ''C01K'' ''1234'' Pending]
       [createDetection (Some ''C01K'') (Some ''1234'') ''photo-1''])) = [Matched] \<and>
   map d_status (snd (matchDetections
       (fst (matchDetections [createPackage 0 ''C01K'' ''1234'' Pending]
           [createDetection (Some ''C01K'') (Some ''1234'') ''photo-1'']))
       (snd (matchDetections [createPackage 0 ''C01K'' ''1234'' Pending]
           [createDetection (Some ''C01K'') (Some ''1234'') ''photo-1''])))) = [Duplicate]"
  by code_simp

text \<open>
  Claim C2, amended. A second call on the output of the first changes no package (a
  found package stays found). A detection keeps the status of the first call unless its
  combo is then claimed by a found or verified package, in which case it becomes
  \<^verbatim>\<open>duplicate\<close>; the combo of every detection the first call matched is claimed.
\<close>

theorem second_match:
  assumes first: "matchDetections packages detections = (updatedPackages, updatedDetections)"
    and second: "matchDetections updatedPackages updatedDetections = (packages2, detections2)"
  shows "packages2 = updatedPackages \<and> length detections2 = length updatedDetections \<and>
    (\<forall>i<length updatedDetections.
       d_status (detections2 ! i) =
         (if comboClaimed updatedPackages (updatedDetections ! i) then Duplicate
          else d_status (updatedDetections ! i))) \<and>
    (\<forall>i<length updatedDetections.
       d_status (updatedDetections ! i) = Matched \<longrightarrow>
       comboClaimed updatedPackages (updatedDetections ! i))"
proof -
  obtain mc where loop1:
    "matchLoop packages (foundCombos packages) detections = (updatedPackages, mc, updatedDetections)"
    using first by (auto simp: matchDetections_def split: prod.splits)
  from matchLoop_foundCombos [OF loop1] have mc: "mc = foundCombos updatedPackages" by simp
  have settled: "\<forall>d \<in> set updatedDetections. settled updatedPackages (foundCombos updatedPackages) d"
    using matchLoop_settled [OF loop1] mc by blast
  then obtain ds' where loop2:
    "matchLoop updatedPackages (foundCombos updatedPackages) updatedDetections =
       (updatedPackages, foundCombos updatedPackages, ds')"
    and len: "length ds' = length updatedDetections"
    and sts: "\<forall>i<length updatedDetections. d_status (ds' ! i) =
      (if truthy (d_parsedApartment (updatedDetections ! i)) \<and>
          truthy (d_parsedLast4 (updatedDetections ! i)) \<and>
          comboKey (the (d_parsedApartment (updatedDetections ! i)))
            (the (d_parsedLast4 (updatedDetections ! i))) \<in> foundCombos updatedPackages
       then Duplicate else d_status (updatedDetections ! i))"
    by (rule matchLoop_of_settled)
  from loop2 second have eq: "packages2 = updatedPackages" "detections2 = ds'"
    by (simp_all add: matchDetections_def)
  have "comboClaimed updatedPackages (updatedDetections ! i)"
    if "i < length updatedDetections" "d_status (updatedDetections ! i) = Matched" for i
  proof -
    from that(1) settled have "settled updatedPackages (foundCombos updatedPackages) (updatedDetections ! i)"
      by simp
    with that(2) show ?thesis by (simp add: settled_def comboClaimed_def)
  qed
  with eq len sts show ?thesis by (simp add: comboClaimed_def)
qed

theorem second_match_witness:
  "d_status (snd (matchDetections
       (fst (matchDetections
          [createPackage 0 ''C01K'' ''1234'' Pending, createPackage 0 ''C02G'' ''5678'' Found]
          [createDetection (Some ''C01K'') (Some ''1234'') ''photo-1'',
           createDetection (Some ''C03H'') (Some ''9012'') ''photo-1'']))
       (snd (matchDetections
          [createPackage 0 ''C01K'' ''1234'' Pending, createPackage 0 ''C02G'' ''5678'' Found]
          [createDetection (Some ''C01K'') (Some ''1234'') ''photo-1'',
           createDetection (Some ''C03H'') (Some ''9012'') ''photo-1'']))) ! 1) = Orphan"
proof -
  define r1 where "r1 = matchDetections
          [createPackage 0 ''C01K'' ''1234'' Pending, createPackage 0 ''C02G'' ''5678'' Found]
          [createDetection (Some ''C01K'') (Some ''1234'') ''photo-1'',
           createDetection (Some ''C03H'') (Some ''9012'') ''photo-1'']"
  define r2 where "r2 = matchDetections (fst r1) (snd r1)"
  have first: "matchDetections
          [createPackage 0 ''C01K'' ''1234'' Pending, createPackage 0 ''C02G'' ''5678'' Found]
          [createDetection (Some ''C01K'') (Some ''1234'') ''photo-1'',
           createDetection (Some ''C03H'') (Some ''9012'') ''photo-1''] = (fst r1, snd r1)"
    by (simp add: r1_def)
  have second: "matchDetections (fst r1) (snd r1) = (fst r2, snd r2)"
    by (simp add: r2_def)
  have len: "1 < length (snd r1)"
    unfolding r1_def by code_simp
  have unclaimed: "\<not> comboClaimed (fst r1) (snd r1 ! 1)"
    unfolding r1_def by code_simp
  have orphan: "d_status (snd r1 ! 1) = Orphan"
    unfolding r1_def by code_simp
  from second_match [OF first second] len unclaimed orphan
  have "d_status (snd r2 ! 1) = Orphan" by simp
  then show ?thesis by (simp add: r2_def r1_def)
qed

text \<open>
  Claim C3. The packages of a call come from the import, where the apartment is a code
  and \<^verbatim>\<open>trackingLast4\<close> is four characters or \<^verbatim>\<open>NONE\<close>: no package has
  an empty apartment or an empty \<^verbatim>\<open>trackingLast4\<close>. The call processes \<open>pre\<close>,
  then \<open>d\<close>, then \<open>post\<close>; \<open>pkgs\<close> and \<open>mc\<close> are the packages and the claimed
  set when \<open>d\<close> is reached. If the parsed fields of \<open>d\<close> are not \<^verbatim>\<open>null\<close>, its
  combo is not claimed then and package \<open>i\<close> is the only pending package with the equal
  pair, the call returns package \<open>i\<close> as \<^verbatim>\<open>found\<close> and \<open>d\<close> as
  \<^verbatim>\<open>matched\<close> with the id of that package, the body adds the combo to the claimed
  set, and every later detection of the call with the same pair is
  \<^verbatim>\<open>duplicate\<close>.
\<close>

theorem unique_pending_match:
  assumes run: "matchDetections packages (pre @ d # post) = (updatedPackages, updatedDetections)"
    and before: "matchLoop packages (foundCombos packages) pre = (pkgs, mc, pre')"
    and keys: "\<forall>p \<in> set packages. p_apartment p \<noteq> [] \<and> p_trackingLast4 p \<noteq> []"
    and apartment: "d_parsedApartment d = Some a"
    and last4: "d_parsedLast4 d = Some l"
    and unclaimed: "comboKey a l \<notin> mc"
    and one: "i < length pkgs" "isMatchingPackage a l (pkgs ! i)"
    and only: "\<forall>j<length pkgs. isMatchingPackage a l (pkgs ! j) \<longrightarrow> j = i"
  shows "p_status (updatedPackages ! i) = Found \<and>
     d_status (updatedDetections ! length pre) = Matched \<and>
     d_matchedPackageId (updatedDetections ! length pre) = Some (p_id (packages ! i)) \<and>
     fst (snd (matchDetection pkgs mc d)) = insert (comboKey a l) mc \<and>
     (\<forall>k<length post.
        d_parsedApartment (post ! k) = Some a \<and> d_parsedLast4 (post ! k) = Some l \<longrightarrow>
        d_status (updatedDetections ! (length pre + 1 + k)) = Duplicate)"
proof -
  from matchLoop_length [OF before] have len: "length pkgs = length packages"
    by simp
  with one(1) have i: "i < length packages"
    by simp
  from matchLoop_package_frame [OF before i]
  have "(pkgs ! i)\<lparr>p_status := p_status (packages ! i)\<rparr> = packages ! i"
    by simp
  then have same: "p_apartment (pkgs ! i) = p_apartment (packages ! i) \<and>
      p_trackingLast4 (pkgs ! i) = p_trackingLast4 (packages ! i)"
    by (rule package_frame_key)
  from i have "packages ! i \<in> set packages"
    by simp
  with keys have "p_apartment (packages ! i) \<noteq> [] \<and> p_trackingLast4 (packages ! i) \<noteq> []"
    by blast
  with same one(2) have nonempty: "a \<noteq> []" "l \<noteq> []"
    by (auto simp: isMatchingPackage_def)
  show ?thesis
    by (rule unique_truthy_match [OF run before apartment nonempty(1) last4 nonempty(2)
          unclaimed one only])
qed

theorem unique_pending_match_witness:
  "p_status (fst (matchDetections [createPackage 0 ''C01K'' ''1234'' Pending]
       [createDetection (Some ''C01K'') (Some ''1234'') ''photo-1'',
        createDetection (Some ''C01K'') (Some ''1234'') ''photo-2'']) ! 0) = Found \<and>
   d_status (snd (matchDetections [createPackage 0 ''C01K'' ''1234'' Pending]
       [createDetection (Some ''C01K'') (Some ''1234'') ''photo-1'',
        createDetection (Some ''C01K'') (Some ''1234'') ''photo-2'']) ! 0) = Matched \<and>
   d_matchedPackageId (snd (matchDetections [createPackage 0 ''C01K'' ''1234'' Pending]
       [createDetection (Some ''C01K'') (Some ''1234'') ''photo-1'',
        createDetection (Some ''C01K'') (Some ''1234'') ''photo-2'']) ! 0) = Some ''pkg-C01K-1234'' \<and>
   d_status (snd (matchDetections [createPackage 0 ''C01K'' ''1234'' Pending]
       [createDetection (Some ''C01K'') (Some ''1234'') ''photo-1'',
        createDetection (Some ''C01K'') (Some ''1234'') ''photo-2'']) ! 1) = Duplicate"
proof -
  define P where "P = [createPackage 0 ''C01K'' ''1234'' Pending]"
  define d where "d = createDetection (Some ''C01K'') (Some ''1234'') ''photo-1''"
  define e where "e = createDetection (Some ''C01K'') (Some ''1234'') ''photo-2''"
  define r where "r = matchDetections P ([] @ d # [e])"
  have run: "matchDetections P ([] @ d # [e]) = (fst r, snd r)"
    by (simp add: r_def)
  have before: "matchLoop P (foundCombos P) [] = (P, {}, [])"
    by (simp add: P_def foundCombos_def addFoundCombo_def createPackage_def)
  have keys: "\<forall>p \<in> set P. p_apartment p \<noteq> [] \<and> p_trackingLast4 p \<noteq> []"
    by (simp add: P_def createPackage_def)
  have apartment: "d_parsedApartment d = Some ''C01K''"
    by (simp add: d_def createDetection_def)
  have last4: "d_parsedLast4 d = Some ''1234''"
    by (simp add: d_def createDetection_def)
  have unclaimed: "comboKey ''C01K'' ''1234'' \<notin> {}"
    by simp
  have one: "0 < length P" "isMatchingPackage ''C01K'' ''1234'' (P ! 0)"
    by (simp_all add: P_def isMatchingPackage_def createPackage_def)
  have only: "\<forall>j<length P. isMatchingPackage ''C01K'' ''1234'' (P ! j) \<longrightarrow> j = 0"
    by (simp add: P_def)
  have post: "d_parsedApartment ([e] ! 0) = Some ''C01K'' \<and> d_parsedLast4 ([e] ! 0) = Some ''1234''"
    by (simp add: e_def createDetection_def)
  have ident: "p_id (P ! 0) = ''pkg-C01K-1234''"
    by (simp add: P_def createPackage_def)
  from unique_pending_match [OF run before keys apartment last4 unclaimed one only] post ident
  have "p_status (fst r ! 0) = Found \<and> d_status (snd r ! 0) = Matched \<and>
     d_matchedPackageId (snd r ! 0) = Some ''pkg-C01K-1234'' \<and> d_status (snd r ! 1) = Duplicate"
    by simp
  then show ?thesis by (simp add: r_def P_def d_def e_def)
qed

text \<open>
  The hypothesis on the packages excludes only inputs that no part of the repository
  produces. Line 43 tests truthiness, so a parsed field that is the empty string is
  treated like \<^verbatim>\<open>null\<close>: against a package with an empty apartment, the
  detection below would be \<^verbatim>\<open>unreadable\<close>.
\<close>

lemma empty_parsed_field_is_unreadable:
  "map d_status (snd (matchDetections [createPackage 0 [] ''1234'' Pending]
       [createDetection (Some []) (Some ''1234'') ''photo-1''])) = [Unreadable]"
  by code_simp

text \<open>
  Claim C10. The result of \<^verbatim>\<open>rematchSingleDetection\<close> does not depend on
  \<^verbatim>\<open>allDetections\<close>: for any two values of it the results are equal, and they are
  the result of \<^verbatim>\<open>matchDetections(packages, [detection])\<close>.
\<close>

theorem rematchSingleDetection_ignores_allDetections:
  "rematchSingleDetection packages detection allDetections =
     rematchSingleDetection packages detection allDetections' \<and>
   rematchSingleDetection packages detection allDetections =
     (fst (matchDetections packages [detection]), snd (matchDetections packages [detection]) ! 0)"
  by (simp add: rematchSingleDetection_def Let_def)

theorem rematchSingleDetection_ignores_allDetections_witness:
  "d_status (snd (rematchSingleDetection [createPackage 0 ''C01K'' ''1234'' Pending]
       (createDetection (Some ''C01K'') (Some ''1234'') ''photo-2'')
       [(createDetection (Some ''C01K'') (Some ''1234'') ''photo-1'')\<lparr>d_id := ''det-1''\<rparr>]))
     = Matched"
proof -
  have "d_status (snd (rematchSingleDetection [createPackage 0 ''C01K'' ''1234'' Pending]
       (createDetection (Some ''C01K'') (Some ''1234'') ''photo-2'') [])) = Matched"
    by code_simp
  with rematchSingleDetection_ignores_allDetections
    [of "[createPackage 0 ''C01K'' ''1234'' Pending]"
        "createDetection (Some ''C01K'') (Some ''1234'') ''photo-2''"
        "[(createDetection (Some ''C01K'') (Some ''1234'') ''photo-1'')\<lparr>d_id := ''det-1''\<rparr>]" "[]"]
  show ?thesis by simp
qed

section \<open>Claims about the objects of the caller\<close>

text \<open>
  Claim C7. \<^verbatim>\<open>matchDetections\<close> writes to no object that exists before the call:
  after the call every package and detection object of the caller holds the value it
  held before (so re-reading the arguments shows unchanged fields). The arrays it returns
  have the lengths of the arguments; read from the store after the call, they hold the
  result of the value model on the values of the arguments; and the object at position
  \<open>i\<close> of a returned array differs from the object at position \<open>i\<close> of the argument at
  most in \<^verbatim>\<open>status\<close> (packages) and in \<^verbatim>\<open>status\<close>,
  \<^verbatim>\<open>matchedPackageId\<close> and \<^verbatim>\<open>notes\<close> (detections), so it has the same id.
\<close>

theorem matchDetectionsStore_frame:
  assumes packages: "\<forall>r \<in> set packages. r < length (packageObjects s)"
    and detections: "\<forall>r \<in> set detections. r < length (detectionObjects s)"
    and run: "matchDetectionsStore s packages detections = (s', updatedPackages, updatedDetections)"
  shows "take (length (packageObjects s)) (packageObjects s') = packageObjects s \<and>
     take (length (detectionObjects s)) (detectionObjects s') = detectionObjects s \<and>
     length updatedPackages = length packages \<and> length updatedDetections = length detections \<and>
     (map (nth (packageObjects s')) updatedPackages, map (nth (detectionObjects s')) updatedDetections) =
       matchDetections (map (nth (packageObjects s)) packages) (map (nth (detectionObjects s)) detections) \<and>
     (\<forall>i<length packages.
        (packageObjects s' ! (updatedPackages ! i))\<lparr>p_status := p_status (packageObjects s ! (packages ! i))\<rparr> =
          packageObjects s ! (packages ! i)) \<and>
     (\<forall>i<length detections.
        (detectionObjects s' ! (updatedDetections ! i))
          \<lparr>d_status := d_status (detectionObjects s ! (detections ! i)),
           d_matchedPackageId := d_matchedPackageId (detectionObjects s ! (detections ! i)),
           d_notes := d_notes (detectionObjects s ! (detections ! i))\<rparr> =
          detectionObjects s ! (detections ! i))"
proof -
  define P0 where "P0 = packageObjects s"
  define D0 where "D0 = detectionObjects s"
  define pk where "pk = map (nth P0) packages"
  define dk where "dk = map (nth D0) detections"
  obtain s1 ups where c1: "copyPackages s packages = (s1, ups)" by (metis surj_pair)
  obtain s2 uds where c2: "copyDetections s1 detections = (s2, uds)" by (metis surj_pair)
  from copyPackages_result [OF c1 packages]
  have s1: "packageObjects s1 = P0 @ pk" "detectionObjects s1 = D0"
    "ups = map ((+) (length P0)) [0..<length pk]"
    by (simp_all add: P0_def D0_def pk_def)
  from detections s1(2) have "\<forall>r \<in> set detections. r < length (detectionObjects s1)"
    by (simp add: D0_def)
  from copyDetections_result [OF c2 this]
  have s2: "detectionObjects s2 = D0 @ dk" "packageObjects s2 = P0 @ pk"
    "uds = map ((+) (length D0)) [0..<length dk]"
    using s1 by (simp_all add: dk_def)
  have seed: "fold (\<lambda>pkg. addFoundCombo (packageObjects s2 ! pkg)) ups {} = foundCombos pk"
  proof -
    have "fold (\<lambda>pkg. addFoundCombo (packageObjects s2 ! pkg)) ups {} =
        fold addFoundCombo (map (nth (packageObjects s2)) ups) {}"
      by (simp add: fold_map comp_def)
    also have "map (nth (packageObjects s2)) ups = pk"
      unfolding s2(2) s1(3) by (rule read_copies) simp
    finally show ?thesis by (simp add: foundCombos_def)
  qed
  obtain pk' mc' ds' where loop: "matchLoop pk (foundCombos pk) dk = (pk', mc', ds')"
    by (metis prod_cases3)
  have "matchLoop pk (foundCombos pk) (drop 0 dk) = (pk', mc', ds')" using loop by simp
  from matchLoopStore_refines [OF s2(2,1) _ this]
  obtain s3 where s3: "matchLoopStore s2 ups (foundCombos pk) uds = (s3, mc')"
    "packageObjects s3 = P0 @ pk'" "detectionObjects s3 = D0 @ ds'"
    unfolding s1(3) s2(3) by auto
  from run c1 c2 seed s3(1) have out: "s' = s3" "updatedPackages = ups" "updatedDetections = uds"
    by (simp_all add: matchDetectionsStore_def)
  from matchLoop_length [OF loop] have len: "length pk' = length pk" "length ds' = length dk"
    by simp_all
  have rp: "map (nth (packageObjects s')) updatedPackages = pk'"
    unfolding out s3(2) s1(3) using len(1) by (rule read_copies)
  have rd: "map (nth (detectionObjects s')) updatedDetections = ds'"
    unfolding out s3(3) s2(3) using len(2) by (rule read_copies)
  have pure: "matchDetections pk dk = (pk', ds')"
    using loop by (simp add: matchDetections_def)
  have fp: "(packageObjects s' ! (updatedPackages ! i))\<lparr>p_status := p_status (P0 ! (packages ! i))\<rparr> =
          P0 ! (packages ! i)" if "i < length packages" for i
  proof -
    from that have i: "i < length pk" by (simp add: pk_def)
    have "packageObjects s' ! (updatedPackages ! i) = pk' ! i"
      using i len(1) by (simp add: out s3(2) s1(3))
    moreover have "pk ! i = P0 ! (packages ! i)" using that by (simp add: pk_def)
    ultimately show ?thesis using matchLoop_package_frame [OF loop i] by simp
  qed
  have fd: "(detectionObjects s' ! (updatedDetections ! i))
          \<lparr>d_status := d_status (D0 ! (detections ! i)),
           d_matchedPackageId := d_matchedPackageId (D0 ! (detections ! i)),
           d_notes := d_notes (D0 ! (detections ! i))\<rparr> = D0 ! (detections ! i)"
    if "i < length detections" for i
  proof -
    from that have i: "i < length dk" by (simp add: dk_def)
    have "detectionObjects s' ! (updatedDetections ! i) = ds' ! i"
      using i len(2) by (simp add: out s3(3) s2(3))
    moreover have "dk ! i = D0 ! (detections ! i)" using that by (simp add: dk_def)
    ultimately show ?thesis using matchLoop_detection_frame [OF loop i] by simp
  qed
  have "take (length P0) (packageObjects s') = P0" by (simp add: out s3(2))
  moreover have "take (length D0) (detectionObjects s') = D0" by (simp add: out s3(3))
  moreover have "length updatedPackages = length packages" by (simp add: out s1(3) pk_def)
  moreover have "length updatedDetections = length detections" by (simp add: out s2(3) dk_def)
  ultimately show ?thesis
    using rp rd pure fp fd unfolding P0_def [symmetric] D0_def [symmetric] pk_def [symmetric] dk_def [symmetric]
    by simp
qed

theorem matchDetectionsStore_frame_witness:
  "map p_status (packageObjects (fst (matchDetectionsStore
       \<lparr>packageObjects = [createPackage 0 ''C01K'' ''1234'' Pending],
        detectionObjects = [createDetection (Some ''C01K'') (Some ''1234'') ''photo-1'',
                            createDetection (Some ''C02G'') (Some ''5678'') ''photo-1'']\<rparr>
       [0] [0, 1]))) = [Pending, Found] \<and>
   map d_status (detectionObjects (fst (matchDetectionsStore
       \<lparr>packageObjects = [createPackage 0 ''C01K'' ''1234'' Pending],
        detectionObjects = [createDetection (Some ''C01K'') (Some ''1234'') ''photo-1'',
                            createDetection (Some ''C02G'') (Some ''5678'') ''photo-1'']\<rparr>
       [0] [0, 1]))) = [Matched, Matched, Matched, Orphan] \<and>
   snd (matchDetectionsStore
       \<lparr>packageObjects = [createPackage 0 ''C01K'' ''1234'' Pending],
        detectionObjects = [createDetection (Some ''C01K'') (Some ''1234'') ''photo-1'',
                            createDetection (Some ''C02G'') (Some ''5678'') ''photo-1'']\<rparr>
       [0] [0, 1]) = ([1], [2, 3]) \<and>
   take 1 (packageObjects (fst (matchDetectionsStore
       \<lparr>packageObjects = [createPackage 0 ''C01K'' ''1234'' Pending],
        detectionObjects = [createDetection (Some ''C01K'') (Some ''1234'') ''photo-1'',
                            createDetection (Some ''C02G'') (Some ''5678'') ''photo-1'']\<rparr>
       [0] [0, 1]))) = [createPackage 0 ''C01K'' ''1234'' Pending]"
proof -
  define s where "s = \<lparr>packageObjects = [createPackage 0 ''C01K'' ''1234'' Pending],
        detectionObjects = [createDetection (Some ''C01K'') (Some ''1234'') ''photo-1'',
                            createDetection (Some ''C02G'') (Some ''5678'') ''photo-1'']\<rparr>"
  define r where "r = matchDetectionsStore s [0] [0, 1]"
  have packages: "\<forall>r \<in> set [0::nat]. r < length (packageObjects s)"
    by (simp add: s_def)
  have detections: "\<forall>r \<in> set [0::nat, 1]. r < length (detectionObjects s)"
    by (simp add: s_def)
  have run: "matchDetectionsStore s [0] [0, 1] = (fst r, fst (snd r), snd (snd r))"
    by (simp add: r_def)
  have statuses: "map p_status (packageObjects (fst r)) = [Pending, Found]"
    "map d_status (detectionObjects (fst r)) = [Matched, Matched, Matched, Orphan]"
    "snd r = ([1], [2, 3])"
    unfolding r_def s_def by code_simp+
  from matchDetectionsStore_frame [OF packages detections run]
  have "take (length (packageObjects s)) (packageObjects (fst r)) = packageObjects s"
    by blast
  then have "take 1 (packageObjects (fst r)) = [createPackage 0 ''C01K'' ''1234'' Pending]"
    by (simp add: s_def)
  with statuses show ?thesis by (simp add: r_def s_def)
qed

section \<open>Claims about the parser\<close>

text \<open>
  Claim C4, as stated, fails: a line whose tracking segment is a no-tracking phrase gets
  the sentinel \<^verbatim>\<open>NONE\<close> as \<^verbatim>\<open>trackingLast4\<close>, so the second such line for
  the same apartment derives a pair that was seen, and lines 199-206 report it as a
  duplicate and create no package.
\<close>

theorem second_no_tracking_line_counterexample:
  "test noTrackingPatterns ''NO TRACKING NUMBER -- Jane Smith'' \<and>
   parseLine ''N01A Unit Test LLC FEDEX - #222 - NO TRACKING NUMBER -- Jane Smith'' =
     Inr \<lparr>x_apartment = ''N01A'', x_carrier = ''FEDEX'', x_recipient = ''Jane Smith'',
          x_fullTracking = ''NO TRACKING NUMBER'', x_trackingLast4 = ''NONE''\<rparr> \<and>
   parsePackageList exampleIds exampleClock
     (''N01A Unit Test LLC USPS - #111 - NO TRACKING NUMBER -- John Doe'' @ [CHR 0x0A] @
      ''N01A Unit Test LLC FEDEX - #222 - NO TRACKING NUMBER -- Jane Smith'') =
   ([\<lparr>p_id = ''id-0'', p_apartment = ''N01A'', p_trackingLast4 = ''NONE'',
       p_carrier = ''USPS'', p_recipient = ''John Doe'',
       p_fullTracking = ''NO TRACKING NUMBER'', p_importedAt = 1770000000000,
       p_status = Pending\<rparr>],
    [\<lparr>e_lineNumber = 2,
       e_line = ''N01A Unit Test LLC FEDEX - #222 - NO TRACKING NUMBER -- Jane Smith'',
       e_reason = ''Duplicate entry (N01A + NONE already exists)''\<rparr>])"
  by code_simp

text \<open>
  Claim C4, amended. A line reaches the carrier/tracking field with \<open>apartment\<close> and
  \<open>field\<close>; the field has three parts and the third, trimmed, passes the test of line
  156. Then no error comes from lines 133-195: the line gets \<^verbatim>\<open>trackingLast4\<close>
  \<^verbatim>\<open>NONE\<close>, the carrier of the field and a recipient that is not empty; and the
  line yields the package, unless the pair of its apartment and \<^verbatim>\<open>NONE\<close> was seen
  before in the call, in which case it yields the duplicate-entry error and no package.
\<close>

theorem no_tracking_segment:
  assumes seg: "segmentLine (trim line) = Inr (apartment, field)"
    and nonblank: "trim line \<noteq> []"
    and parts: "3 \<le> length (split '' - '' field)"
    and phrase: "test noTrackingPatterns (trim (split '' - '' field ! 2))"
  shows "\<exists>x. parseLine (trim line) = Inr x \<and>
       x_apartment x = apartment \<and> x_carrier x = trim (split '' - '' field ! 0) \<and>
       x_trackingLast4 x = ''NONE'' \<and> x_recipient x \<noteq> [] \<and>
       parseCallback uuidv4 now st (line, i) =
         (if comboKey apartment ''NONE'' \<in> ps_seenCombos st
          then st\<lparr>ps_errors := ps_errors st @
                 [\<lparr>e_lineNumber = i + 1, e_line = trim line,
                   e_reason = ''Duplicate entry ('' @ apartment @ '' + '' @ ''NONE'' @
                     '' already exists)''\<rparr>]\<rparr>
          else st\<lparr>ps_seenCombos := insert (comboKey apartment ''NONE'') (ps_seenCombos st),
                 ps_packages := ps_packages st @
                   [\<lparr>p_id = uuidv4 (length (ps_packages st)),
                     p_apartment = apartment,
                     p_trackingLast4 = ''NONE'',
                     p_carrier = x_carrier x,
                     p_recipient = x_recipient x,
                     p_fullTracking = x_fullTracking x,
                     p_importedAt = now (length (ps_packages st)),
                     p_status = Pending\<rparr>]\<rparr>)"
proof -
  define tr where "tr = trim (split '' - '' field ! 2)"
  define rf where "rf =
         (case match noTrackRecipient tr of
            None \<Rightarrow> (''UNKNOWN'', trim tr)
          | Some m \<Rightarrow>
              if trim (group m 2) \<noteq> [] then (trim (group m 2), trim (group m 1))
              else (''UNKNOWN'', trim tr))"
  define x where "x = \<lparr>x_apartment = apartment, x_carrier = trim (split '' - '' field ! 0),
      x_recipient = fst rf, x_fullTracking = snd rf, x_trackingLast4 = ''NONE''\<rparr>"
  have "parseCarrierTracking apartment field = Inr x"
    using parts phrase
    by (auto simp: parseCarrierTracking_def Let_def x_def rf_def tr_def split: option.splits)
  with seg have line: "parseLine (trim line) = Inr x" by (simp add: parseLine_def)
  have "fst rf \<noteq> []"
    by (simp add: rf_def split: option.splits)
  then have fields: "x_apartment x = apartment" "x_carrier x = trim (split '' - '' field ! 0)"
    "x_trackingLast4 x = ''NONE''" "x_recipient x \<noteq> []"
    by (simp_all add: x_def)
  have "parseCallback uuidv4 now st (line, i) =
         (if comboKey apartment ''NONE'' \<in> ps_seenCombos st
          then st\<lparr>ps_errors := ps_errors st @
                 [\<lparr>e_lineNumber = i + 1, e_line = trim line,
                   e_reason = ''Duplicate entry ('' @ apartment @ '' + '' @ ''NONE'' @
                     '' already exists)''\<rparr>]\<rparr>
          else st\<lparr>ps_seenCombos := insert (comboKey apartment ''NONE'') (ps_seenCombos st),
                 ps_packages := ps_packages st @
                   [\<lparr>p_id = uuidv4 (length (ps_packages st)),
                     p_apartment = apartment,
                     p_trackingLast4 = ''NONE'',
                     p_carrier = x_carrier x,
                     p_recipient = x_recipient x,
                     p_fullTracking = x_fullTracking x,
                     p_importedAt = now (length (ps_packages st)),
                     p_status = Pending\<rparr>]\<rparr>)"
    using parseCallback_duplicate [OF nonblank line, of st uuidv4 now i]
      parseCallback_package [OF nonblank line, of st uuidv4 now i]
    by (simp add: fields(1,3))
  with line fields show ?thesis
    by blast
qed

theorem no_tracking_segment_witness:
  "parseCallback exampleIds exampleClock
     \<lparr>ps_packages = [], ps_errors = [], ps_seenCombos = {}\<rparr>
     (''N01A Unit Test LLC USPS - #111 - NO TRACKING NUMBER -- John Doe'', 0) =
   \<lparr>ps_packages =
      [\<lparr>p_id = ''id-0'', p_apartment = ''N01A'', p_trackingLast4 = ''NONE'',
        p_carrier = ''USPS'', p_recipient = ''John Doe'',
        p_fullTracking = ''NO TRACKING NUMBER'', p_importedAt = 1770000000000,
        p_status = Pending\<rparr>],
    ps_errors = [], ps_seenCombos = {''N01A:NONE''}\<rparr>"
proof -
  define line where "line = ''N01A Unit Test LLC USPS - #111 - NO TRACKING NUMBER -- John Doe''"
  define field where "field = ''USPS - #111 - NO TRACKING NUMBER -- John Doe''"
  define st where "st = \<lparr>ps_packages = [], ps_errors = [], ps_seenCombos = {}\<rparr>"
  have seg: "segmentLine (trim line) = Inr (''N01A'', field)"
    unfolding line_def field_def by code_simp
  have nonblank: "trim line \<noteq> []"
    unfolding line_def by code_simp
  have parts: "3 \<le> length (split '' - '' field)"
    unfolding field_def by code_simp
  have phrase: "test noTrackingPatterns (trim (split '' - '' field ! 2))"
    unfolding field_def by code_simp
  have parsed: "parseLine (trim line) =
      Inr \<lparr>x_apartment = ''N01A'', x_carrier = ''USPS'', x_recipient = ''John Doe'',
           x_fullTracking = ''NO TRACKING NUMBER'', x_trackingLast4 = ''NONE''\<rparr>"
    unfolding line_def by code_simp
  have key: "comboKey ''N01A'' ''NONE'' = ''N01A:NONE''"
    by (simp add: comboKey_def)
  have ids: "exampleIds 0 = ''id-0''"
    by code_simp
  have clock: "exampleClock 0 = 1770000000000"
    by code_simp
  from no_tracking_segment [OF seg nonblank parts phrase, of exampleIds exampleClock st 0]
  obtain x where x: "parseLine (trim line) = Inr x"
    and step: "parseCallback exampleIds exampleClock st (line, 0) =
         st\<lparr>ps_seenCombos := insert (comboKey ''N01A'' ''NONE'') (ps_seenCombos st),
            ps_packages := ps_packages st @
              [\<lparr>p_id = exampleIds (length (ps_packages st)),
                p_apartment = ''N01A'',
                p_trackingLast4 = ''NONE'',
                p_carrier = x_carrier x,
                p_recipient = x_recipient x,
                p_fullTracking = x_fullTracking x,
                p_importedAt = exampleClock (length (ps_packages st)),
                p_status = Pending\<rparr>]\<rparr>"
    by (auto simp: st_def)
  from x parsed have "x = \<lparr>x_apartment = ''N01A'', x_carrier = ''USPS'',
      x_recipient = ''John Doe'', x_fullTracking = ''NO TRACKING NUMBER'',
      x_trackingLast4 = ''NONE''\<rparr>"
    by simp
  with step show ?thesis
    unfolding line_def [symmetric] st_def [symmetric]
    by (simp add: st_def key ids clock)
qed

text \<open>
  What \<^verbatim>\<open>fullTracking\<close> and the recipient are is not part of the amended claim:
  there the code departs from the comments of lines 157-158 and 165. The pattern of line
  159 asks for white space and one more character after the phrase, so it backtracks on
  the phrase \<^verbatim>\<open>NO TRACKING NUMBER\<close> with nothing after it and takes
  \<^verbatim>\<open>NUMBER\<close> for the recipient, and on a phrase followed by dashes only it takes
  the last dash for the recipient.
\<close>

lemma no_tracking_number_alone:
  "parseLine ''N01A Unit Test LLC USPS - #111 - NO TRACKING NUMBER'' =
     Inr \<lparr>x_apartment = ''N01A'', x_carrier = ''USPS'', x_recipient = ''NUMBER'',
          x_fullTracking = ''NO TRACKING'', x_trackingLast4 = ''NONE''\<rparr>"
  by code_simp

lemma no_tracking_dashes_alone:
  "parseLine ''N01A Unit Test LLC USPS - #111 - NO TRK --'' =
     Inr \<lparr>x_apartment = ''N01A'', x_carrier = ''USPS'', x_recipient = ''-'',
          x_fullTracking = ''NO TRK'', x_trackingLast4 = ''NONE''\<rparr>"
  by code_simp






text \<open>
  Claim C8. No two packages that one call returns share the pair of apartment and
  \<^verbatim>\<open>trackingLast4\<close>. Every pair that a line derives has its package in the
  result (the one of its first occurrence); a line that derives a pair that an earlier
  line of the call derived yields the duplicate-entry error with its line number and
  text, and the callback adds no package for it.
\<close>

theorem parsePackageList_no_duplicate_pairs:
  assumes "parsePackageList uuidv4 now rawText = (pkgs, errs)"
  shows "distinct (map (\<lambda>p. (p_apartment p, p_trackingLast4 p)) pkgs) \<and>
     (\<forall>i x. i < length (split [CHR 0x0A] rawText) \<and>
        trim (split [CHR 0x0A] rawText ! i) \<noteq> [] \<and>
        parseLine (trim (split [CHR 0x0A] rawText ! i)) = Inr x \<longrightarrow>
        (\<exists>p \<in> set pkgs. p_apartment p = x_apartment x \<and> p_trackingLast4 p = x_trackingLast4 x)) \<and>
     (\<forall>i j x y. j < i \<and> i < length (split [CHR 0x0A] rawText) \<and>
        trim (split [CHR 0x0A] rawText ! j) \<noteq> [] \<and>
        parseLine (trim (split [CHR 0x0A] rawText ! j)) = Inr y \<and>
        trim (split [CHR 0x0A] rawText ! i) \<noteq> [] \<and>
        parseLine (trim (split [CHR 0x0A] rawText ! i)) = Inr x \<and>
        x_apartment y = x_apartment x \<and> x_trackingLast4 y = x_trackingLast4 x \<longrightarrow>
        \<lparr>e_lineNumber = i + 1, e_line = trim (split [CHR 0x0A] rawText ! i),
          e_reason = ''Duplicate entry ('' @ x_apartment x @ '' + '' @
             x_trackingLast4 x @ '' already exists)''\<rparr> \<in> set errs) \<and>
     (\<forall>st line i x. trim line \<noteq> [] \<and> parseLine (trim line) = Inr x \<and>
        comboKey (x_apartment x) (x_trackingLast4 x) \<in> ps_seenCombos st \<longrightarrow>
        ps_packages (parseCallback uuidv4 now st (line, i)) = ps_packages st)"
proof -
  define ls where "ls = split [CHR 0x0A] rawText"
  from assms have out: "pkgs = ps_packages (parseLines uuidv4 now ls)"
    "errs = ps_errors (parseLines uuidv4 now ls)"
    by (simp_all add: parsePackageList_def Let_def ls_def)
  have a: "distinct (map (\<lambda>p. (p_apartment p, p_trackingLast4 p)) pkgs)"
    unfolding out by (rule parseLines_distinct_pairs)
  have b: "\<forall>i x. i < length ls \<and> trim (ls ! i) \<noteq> [] \<and> parseLine (trim (ls ! i)) = Inr x \<longrightarrow>
        (\<exists>p \<in> set pkgs. p_apartment p = x_apartment x \<and> p_trackingLast4 p = x_trackingLast4 x)"
    unfolding out using parseLines_first_stands [of _ ls _ uuidv4 now] by blast
  have c: "\<forall>i j x y. j < i \<and> i < length ls \<and>
        trim (ls ! j) \<noteq> [] \<and> parseLine (trim (ls ! j)) = Inr y \<and>
        trim (ls ! i) \<noteq> [] \<and> parseLine (trim (ls ! i)) = Inr x \<and>
        x_apartment y = x_apartment x \<and> x_trackingLast4 y = x_trackingLast4 x \<longrightarrow>
        \<lparr>e_lineNumber = i + 1, e_line = trim (ls ! i),
          e_reason = ''Duplicate entry ('' @ x_apartment x @ '' + '' @
             x_trackingLast4 x @ '' already exists)''\<rparr> \<in> set errs"
    unfolding out using parseLines_duplicate_error [of _ _ ls _ _ uuidv4 now] by blast
  have d: "\<forall>st line i x. trim line \<noteq> [] \<and> parseLine (trim line) = Inr x \<and>
        comboKey (x_apartment x) (x_trackingLast4 x) \<in> ps_seenCombos st \<longrightarrow>
        ps_packages (parseCallback uuidv4 now st (line, i)) = ps_packages st"
    by (simp add: parseCallback_duplicate)
  from a b c d show ?thesis unfolding ls_def by blast
qed

theorem parsePackageList_no_duplicate_pairs_witness:
  "\<lparr>e_lineNumber = 2,
     e_line = ''C01K Unit'' @ [CHR 0x09] @ ''ESCARDO LLC'' @ [CHR 0x09] @
       ''UPS - #2165790850 - 1ZA8272V1341859679 MARIA ESPEJO'' @ [CHR 0x09] @ ''3901'',
     e_reason = ''Duplicate entry (C01K + 9679 already exists)''\<rparr>
   \<in> set (snd (parsePackageList exampleIds exampleClock
     (''C01K Unit'' @ [CHR 0x09] @ ''ESCARDO LLC'' @ [CHR 0x09] @
      ''UPS - #2165790850 - 1ZA8272V1341859679 MARIA ESPEJO'' @ [CHR 0x09] @ ''3901'' @
      [CHR 0x0A] @ ''C01K Unit'' @ [CHR 0x09] @ ''ESCARDO LLC'' @ [CHR 0x09] @
      ''UPS - #2165790850 - 1ZA8272V1341859679 MARIA ESPEJO'' @ [CHR 0x09] @ ''3901''))) \<and>
   map p_trackingLast4 (fst (parsePackageList exampleIds exampleClock
     (''C01K Unit'' @ [CHR 0x09] @ ''ESCARDO LLC'' @ [CHR 0x09] @
      ''UPS - #2165790850 - 1ZA8272V1341859679 MARIA ESPEJO'' @ [CHR 0x09] @ ''3901'' @
      [CHR 0x0A] @ ''C01K Unit'' @ [CHR 0x09] @ ''ESCARDO LLC'' @ [CHR 0x09] @
      ''UPS - #2165790850 - 1ZA8272V1341859679 MARIA ESPEJO'' @ [CHR 0x09] @ ''3901''))) =
     [''9679'']"
proof -
  define line where "line = ''C01K Unit'' @ [CHR 0x09] @ ''ESCARDO LLC'' @ [CHR 0x09] @
       ''UPS - #2165790850 - 1ZA8272V1341859679 MARIA ESPEJO'' @ [CHR 0x09] @ ''3901''"
  define x where "x = \<lparr>x_apartment = ''C01K'', x_carrier = ''UPS'',
      x_recipient = ''MARIA ESPEJO'', x_fullTracking = ''1ZA8272V1341859679'',
      x_trackingLast4 = ''9679''\<rparr>"
  define r where "r = parsePackageList exampleIds exampleClock (line @ [CHR 0x0A] @ line)"
  have run: "parsePackageList exampleIds exampleClock (line @ [CHR 0x0A] @ line) = (fst r, snd r)"
    by (simp add: r_def)
  have lines: "split [CHR 0x0A] (line @ [CHR 0x0A] @ line) = [line, line]"
    unfolding line_def by code_simp
  have nonblank: "trim line \<noteq> []"
    unfolding line_def by code_simp
  have parsed: "parseLine (trim line) = Inr x"
    unfolding line_def x_def by code_simp
  have packages: "map p_trackingLast4 (fst r) = [''9679'']"
    unfolding r_def line_def by code_simp
  let ?ls = "split [CHR 0x0A] (line @ [CHR 0x0A] @ line)"
  from parsePackageList_no_duplicate_pairs [OF run]
  have "\<forall>i j x y. j < i \<and> i < length ?ls \<and>
        trim (?ls ! j) \<noteq> [] \<and> parseLine (trim (?ls ! j)) = Inr y \<and>
        trim (?ls ! i) \<noteq> [] \<and> parseLine (trim (?ls ! i)) = Inr x \<and>
        x_apartment y = x_apartment x \<and> x_trackingLast4 y = x_trackingLast4 x \<longrightarrow>
        \<lparr>e_lineNumber = i + 1, e_line = trim (?ls ! i),
          e_reason = ''Duplicate entry ('' @ x_apartment x @ '' + '' @
             x_trackingLast4 x @ '' already exists)''\<rparr> \<in> set (snd r)"
    by blast
  then have "0 < (1::nat) \<and> 1 < length ?ls \<and>
        trim (?ls ! 0) \<noteq> [] \<and> parseLine (trim (?ls ! 0)) = Inr x \<and>
        trim (?ls ! 1) \<noteq> [] \<and> parseLine (trim (?ls ! 1)) = Inr x \<and>
        x_apartment x = x_apartment x \<and> x_trackingLast4 x = x_trackingLast4 x \<longrightarrow>
        \<lparr>e_lineNumber = 1 + 1, e_line = trim (?ls ! 1),
          e_reason = ''Duplicate entry ('' @ x_apartment x @ '' + '' @
             x_trackingLast4 x @ '' already exists)''\<rparr> \<in> set (snd r)"
    by blast
  with lines nonblank parsed
  have "\<lparr>e_lineNumber = 2, e_line = trim line,
          e_reason = ''Duplicate entry ('' @ x_apartment x @ '' + '' @
             x_trackingLast4 x @ '' already exists)''\<rparr> \<in> set (snd r)"
    by (simp add: numeral_2_eq_2)
  moreover have "trim line = line"
    unfolding line_def by code_simp
  ultimately have "\<lparr>e_lineNumber = 2, e_line = line,
          e_reason = ''Duplicate entry (C01K + 9679 already exists)''\<rparr> \<in> set (snd r)"
    by (simp add: x_def)
  with packages show ?thesis
    by (simp add: r_def line_def)
qed


end
